theory Spec2Isabelle
  imports Complex_Main
begin

section \<open>The content model (input of \<open>layoutWordContent\<close>)\<close>

text \<open>
  The input is JSON. A string is a list of UTF-16 code units (\<open>char\<close> stands for one code
  unit); a property that may be absent is an \<open>option\<close>. A JavaScript truth test on a
  string is "present and not empty".
\<close>

definition CR :: char where
  "CR = CHR 0x0D"

definition TAB :: char where
  "TAB = CHR 0x09"

definition truthy :: "string option \<Rightarrow> bool" where
  "truthy v = (case v of None \<Rightarrow> False | Some t \<Rightarrow> t \<noteq> [])"

definition orEmpty :: "string option \<Rightarrow> string" where
  \<comment> \<open>\<open>v || ""\<close>\<close>
  "orEmpty v = (case v of None \<Rightarrow> [] | Some t \<Rightarrow> t)"

record fmt =
  bold :: bool
  italic :: bool
  underline :: bool

record run =
  run_text :: "string option"
  formatting :: "fmt option"

record para =
  runs :: "run list option"
  style :: "string option"

text \<open>
  An element of a table cell is read only through its \<open>runs\<close> property. A paragraph
  object may have one; a bare JSON string has none.
\<close>

datatype cell_item = ParaItem para | TextItem string

type_synonym cell = "cell_item list"
type_synonym row = "cell list"

datatype block =
    Paragraph para
  | Table "row list option"
  | OtherBlock string

text \<open>
  \<open>styleMapping\<close> is a plain object. Reading a property of it finds the object's own
  entries (strings) and, for a key it does not have, the members it inherits from
  \<open>Object.prototype\<close>, which are functions or objects and therefore truthy. The value of
  \<open>styleMapping[k] || k\<close> is thus a string or an inherited member.
\<close>

datatype js_name = Str string | Inherited string

definition objectPrototypeKeys :: "string list" where
  "objectPrototypeKeys =
     [''constructor'', ''hasOwnProperty'', ''isPrototypeOf'', ''propertyIsEnumerable'',
      ''toLocaleString'', ''toString'', ''valueOf'', ''__proto__'', ''__defineGetter__'',
      ''__defineSetter__'', ''__lookupGetter__'', ''__lookupSetter__'']"

record options =
  content :: "block list option"
  styleMapping :: "(string \<rightharpoonup> string) option"
  autoFlow :: "bool option"
  startPage :: "nat option"

section \<open>The host document\<close>

text \<open>
  The InDesign object model is outside the repository. It is modelled as an explicit
  store, following the container model and the host interface of the specification
  (sections 3 and 6): a container (text frame) has a rectangle, owns its story and has at
  most one successor. A frame is named by its index in the store, a paragraph style by
  its name. Numbers are exact reals; bounds are \<open>(y1, x1, y2, x2)\<close>, as InDesign orders
  them. Page indices are natural numbers. The flow engine only ever passes frame and page
  indices that exist.
\<close>

type_synonym bounds4 = "real \<times> real \<times> real \<times> real"

record margins =
  top_margin :: real
  bottom_margin :: real
  left_margin :: real
  right_margin :: real

record page =
  bounds :: bounds4
  marginPreferences :: margins
  textFrames :: "nat list"

record character =
  code :: char
  fontStyle :: string
  underlineAttr :: bool
  appliedParagraphStyle :: string

record textFrame =
  geometricBounds :: bounds4
  parentStory :: "character list"
  nextTextFrame :: "nat option"

record document =
  pages :: "page list"
  frames :: "textFrame list"
  paragraphStyles :: "string list"

text \<open>
  What the source leaves to the host is a parameter: whether a container overflows
  (\<open>frame.overflows\<close>), what a fresh page looks like, which attributes inserted text starts
  with, which host calls fail, and what the host makes of a style name that is not a
  string (\<open>memberAsName\<close>: the name it reads the inherited member of that key as, or
  \<open>None\<close> when it throws).
\<close>

record host =
  overflows :: "document \<Rightarrow> nat \<Rightarrow> bool"
  newPage :: "document \<Rightarrow> page"
  insertionAttrs :: "character list \<Rightarrow> character"
  pagesAddFails :: "document \<Rightarrow> bool"
  textFramesAddFails :: "document \<Rightarrow> nat \<Rightarrow> bool"
  setContentsFails :: "document \<Rightarrow> nat \<Rightarrow> string \<Rightarrow> bool"
  styleAddFails :: "document \<Rightarrow> string \<Rightarrow> bool"
  fontStyleFails :: "character \<Rightarrow> string \<Rightarrow> bool"
  memberAsName :: "string \<Rightarrow> string option"

datatype host_error =
  PageAddError | FrameAddError | InsertError | StyleAddError | NameError

definition pages_add :: "host \<Rightarrow> document \<Rightarrow> host_error + document" where
  \<comment> \<open>Modelled from the spec: \<open>appendPage()\<close>, that is \<open>doc.pages.add()\<close>, appends one
      page at the end\<close>
  "pages_add h d =
     (if pagesAddFails h d then Inl PageAddError
      else Inr (d\<lparr>pages := pages d @ [newPage h d]\<rparr>))"

definition textFrames_add :: "host \<Rightarrow> document \<Rightarrow> nat \<Rightarrow> bounds4 \<Rightarrow> host_error + document \<times> nat" where
  \<comment> \<open>Modelled from the spec: \<open>createContainer(page, rect)\<close>, that is
      \<open>page.textFrames.add({geometricBounds: gb})\<close>, creates a fresh container on the page,
      with an empty story and no successor\<close>
  "textFrames_add h d pageIndex gb =
     (if textFramesAddFails h d pageIndex then Inl FrameAddError
      else
        let fid = length (frames d);
            p = pages d ! pageIndex
        in Inr (d\<lparr>frames := frames d @
                      [\<lparr>geometricBounds = gb, parentStory = [], nextTextFrame = None\<rparr>],
                  pages := (pages d)[pageIndex := p\<lparr>textFrames := textFrames p @ [fid]\<rparr>]\<rparr>,
                fid))"

definition storyOf :: "document \<Rightarrow> nat \<Rightarrow> character list" where
  "storyOf d f = parentStory (frames d ! f)"

definition setStory :: "document \<Rightarrow> nat \<Rightarrow> character list \<Rightarrow> document" where
  "setStory d f cs = d\<lparr>frames := (frames d)[f := (frames d ! f)\<lparr>parentStory := cs\<rparr>]\<rparr>"

definition insertedText :: "host \<Rightarrow> character list \<Rightarrow> string \<Rightarrow> character list" where
  "insertedText h cs t = map (\<lambda>c. (insertionAttrs h cs)\<lparr>code := c\<rparr>) t"

definition set_contents :: "host \<Rightarrow> document \<Rightarrow> nat \<Rightarrow> string \<Rightarrow> host_error + document" where
  \<comment> \<open>Modelled from the spec: \<open>appendText(container, text)\<close>, that is
      \<open>frame.parentStory.insertionPoints[-1].contents = t\<close>, inserts at the end of the
      container's story\<close>
  "set_contents h d f t =
     (if setContentsFails h d f t then Inl InsertError
      else Inr (setStory d f (storyOf d f @ insertedText h (storyOf d f) t)))"

definition isValid :: "document \<Rightarrow> string \<Rightarrow> bool" where
  \<comment> \<open>Modelled from the spec: a style reference is valid when the document has a
      paragraph style of that name (\<open>style.isValid\<close>)\<close>
  "isValid d name = (name \<in> set (paragraphStyles d))"

definition hostName :: "host \<Rightarrow> js_name \<Rightarrow> string option" where
  \<comment> \<open>the style name the host reads a value as; \<open>None\<close> when it throws\<close>
  "hostName h v = (case v of Str n \<Rightarrow> Some n | Inherited m \<Rightarrow> memberAsName h m)"

definition itemByName :: "host \<Rightarrow> js_name \<Rightarrow> host_error + string" where
  \<comment> \<open>Modelled from the spec: \<open>findStyleByName(name)\<close>, that is
      \<open>doc.paragraphStyles.itemByName(v)\<close>: the reference to the style of that name\<close>
  "itemByName h v = (case hostName h v of None \<Rightarrow> Inl NameError | Some n \<Rightarrow> Inr n)"

definition paragraphStyles_add ::
  "host \<Rightarrow> document \<Rightarrow> js_name \<Rightarrow> host_error + document \<times> string" where
  \<comment> \<open>Modelled from the spec: \<open>createStyle(name)\<close>, that is
      \<open>doc.paragraphStyles.add({name: v})\<close>; throws on a name in use or when the host
      refuses, and returns the new style\<close>
  "paragraphStyles_add h d v =
     (case hostName h v of
        None \<Rightarrow> Inl NameError
      | Some n \<Rightarrow>
          if isValid d n \<or> styleAddFails h d n then Inl StyleAddError
          else Inr (d\<lparr>paragraphStyles := paragraphStyles d @ [n]\<rparr>, n))"

definition lastParagraphStart :: "character list \<Rightarrow> nat" where
  \<comment> \<open>where \<open>story.paragraphs[-1]\<close> starts: after the last terminator before the final character\<close>
  "lastParagraphStart cs =
     length cs - Suc (length (takeWhile (\<lambda>c. code c \<noteq> CR) (rev (butlast cs))))"

definition styleLastParagraph :: "string \<Rightarrow> character list \<Rightarrow> character list" where
  "styleLastParagraph st cs =
     take (lastParagraphStart cs) cs @
     map (\<lambda>c. c\<lparr>appliedParagraphStyle := st\<rparr>) (drop (lastParagraphStart cs) cs)"

definition set_lastPara_style :: "document \<Rightarrow> nat \<Rightarrow> string \<Rightarrow> document option" where
  \<comment> \<open>Modelled from the spec: \<open>applyParagraphStyle\<close> on the last paragraph, that is
      \<open>story.paragraphs[-1].appliedParagraphStyle = st\<close>; throws (None) on an empty story or
      an invalid style\<close>
  "set_lastPara_style d f st =
     (if storyOf d f \<noteq> [] \<and> isValid d st
      then Some (setStory d f (styleLastParagraph st (storyOf d f)))
      else None)"

definition set_fontStyle :: "host \<Rightarrow> character \<Rightarrow> string \<Rightarrow> character option" where
  \<comment> \<open>Modelled from the spec: \<open>applyCharacterFormat\<close>, that is \<open>char.fontStyle = name\<close>;
      throws (None) when the host refuses the font style\<close>
  "set_fontStyle h ch name =
     (if fontStyleFails h ch name then None else Some (ch\<lparr>fontStyle := name\<rparr>))"

definition set_nextTextFrame :: "document \<Rightarrow> nat \<Rightarrow> nat \<Rightarrow> document" where
  \<comment> \<open>Modelled from the spec: \<open>linkContainers(a, b)\<close>, that is \<open>a.nextTextFrame = b\<close>,
      sets the successor of \<open>a\<close> to \<open>b\<close>\<close>
  "set_nextTextFrame d a b =
     d\<lparr>frames := (frames d)[a := (frames d ! a)\<lparr>nextTextFrame := Some b\<rparr>]\<rparr>"

section \<open>The flow engine: \<open>layoutWordContent\<close>\<close>

text \<open>
  The definitions follow \<open>uxp-plugins/indesign/commands/layout.js\<close>. The closures of the
  source mutate the active document and the counters of the enclosing function; here each
  takes what it reads and returns what it changes. A host exception outside any \<open>try\<close>
  ends the whole operation (\<open>Inl\<close>); inside a \<open>try\<close> it is the branch that the \<open>catch\<close>
  takes.
\<close>

record contentBounds =
  cb_x :: real
  cb_y :: real
  cb_width :: real
  cb_height :: real

definition getPageContentBounds :: "document \<Rightarrow> nat \<Rightarrow> contentBounds" where
  \<comment> \<open>lines 46 to 57\<close>
  "getPageContentBounds d pageIndex =
     (let pg = pages d ! pageIndex;
          (b0, b1, b2, b3) = bounds pg;
          m = marginPreferences pg
      in \<lparr>cb_x = left_margin m,
          cb_y = top_margin m,
          cb_width = (b3 - b1) - left_margin m - right_margin m,
          cb_height = (b2 - b0) - top_margin m - bottom_margin m\<rparr>)"

text \<open>
  \<open>ensurePage\<close> (lines 60 to 66) is the loop \<open>while (doc.pages.length <= pageIndex)\<close>; it
  threads the document and the counter \<open>pagesCreated\<close>.
\<close>

function ensurePage :: "host \<Rightarrow> document \<Rightarrow> nat \<Rightarrow> nat \<Rightarrow> host_error + document \<times> nat" where
  "ensurePage h d created pageIndex =
     (if length (pages d) \<le> pageIndex then
        (case pages_add h d of
           Inl e \<Rightarrow> Inl e
         | Inr d' \<Rightarrow> ensurePage h d' (Suc created) pageIndex)
      else Inr (d, created))"
  by pat_completeness auto
termination
  by (relation "measure (\<lambda>(h, d, created, pageIndex). Suc pageIndex - length (pages d))")
     (auto simp: pages_add_def split: if_splits)

declare ensurePage.simps [simp del]

definition getOrCreateTextFrame ::
  "host \<Rightarrow> document \<Rightarrow> nat \<Rightarrow> nat \<Rightarrow> host_error + document \<times> nat \<times> nat" where
  \<comment> \<open>lines 69 to 84\<close>
  "getOrCreateTextFrame h d created pageIndex =
     (case ensurePage h d created pageIndex of
        Inl e \<Rightarrow> Inl e
      | Inr (d1, created1) \<Rightarrow>
          let b = getPageContentBounds d1 pageIndex
          in (case textFrames_add h d1 pageIndex
                     (cb_y b, cb_x b, cb_y b + cb_height b, cb_x b + cb_width b) of
                Inl e \<Rightarrow> Inl e
              | Inr (d2, textFrame) \<Rightarrow> Inr (d2, created1, textFrame)))"

definition indesignStyleName :: "(string \<rightharpoonup> string) \<Rightarrow> string \<Rightarrow> js_name" where
  \<comment> \<open>line 88, \<open>styleMapping[wordStyleName] || wordStyleName\<close>: an own entry if it is not
      empty; for a key the map does not have, the inherited member of that key if there
      is one; otherwise the source name\<close>
  "indesignStyleName sm wordStyleName =
     (case sm wordStyleName of
        Some t \<Rightarrow> if t \<noteq> [] then Str t else Str wordStyleName
      | None \<Rightarrow>
          if wordStyleName \<in> set objectPrototypeKeys then Inherited wordStyleName
          else Str wordStyleName)"

definition getOrCreateStyle ::
  "host \<Rightarrow> (string \<rightharpoonup> string) \<Rightarrow> document \<Rightarrow> string \<Rightarrow> document \<times> string" where
  \<comment> \<open>lines 87 to 110: the first \<open>try\<close> returns a valid existing style, the second the
      created one, its \<open>catch\<close> the reference to \<open>[Basic Paragraph]\<close>\<close>
  "getOrCreateStyle h sm d wordStyleName =
     (let v = indesignStyleName sm wordStyleName;
          existingStyle =
            (case itemByName h v of
               Inl e \<Rightarrow> None
             | Inr st \<Rightarrow> if isValid d st then Some st else None)
      in case existingStyle of
           Some st \<Rightarrow> (d, st)
         | None \<Rightarrow>
             (case paragraphStyles_add h d v of
                Inr (d', newStyle) \<Rightarrow> (d', newStyle)
              | Inl e \<Rightarrow> (d, ''[Basic Paragraph]'')))"

definition appendRuns :: "string \<Rightarrow> run list \<Rightarrow> string" where
  \<comment> \<open>\<open>for (const run of runs) acc += run.text || ""\<close>\<close>
  "appendRuns acc rs = foldl (\<lambda>a r. a @ orEmpty (run_text r)) acc rs"

definition paragraphText :: "para \<Rightarrow> string option" where
  \<comment> \<open>lines 121 to 137; \<open>None\<close> is the \<open>continue\<close>\<close>
  "paragraphText blk =
     (let t = (case runs blk of
                 None \<Rightarrow> []
               | Some rs \<Rightarrow> if length rs > 0 then appendRuns [] rs else [])
      in if length t > 0 then Some (t @ [CR])
         else if truthy (style blk) then Some [CR]
         else None)"

definition formatCharacter :: "host \<Rightarrow> fmt \<Rightarrow> character \<Rightarrow> character \<times> bool" where
  \<comment> \<open>lines 168 to 178, the body of the character loop; the flag is False when a setter
      threw\<close>
  "formatCharacter h f ch =
     (case (if bold f then set_fontStyle h ch ''Bold'' else Some ch) of
        None \<Rightarrow> (ch, False)
      | Some c1 \<Rightarrow>
          (case (if italic f
                 then set_fontStyle h c1 (if bold f then ''Bold Italic'' else ''Italic'')
                 else Some c1) of
             None \<Rightarrow> (c1, False)
           | Some c2 \<Rightarrow> (if underline f then c2\<lparr>underlineAttr := True\<rparr> else c2, True)))"

text \<open>
  \<open>formatRange\<close> is the loop of line 167 inside its \<open>try\<close>: it runs from \<open>c\<close> while
  \<open>c < charIndex + runLength\<close> and \<open>c < story.characters.length\<close>, and stops at the first
  exception, keeping what it has changed. \<open>formatRuns\<close> is the loop over the runs (lines
  161 to 185), with \<open>charIndex += runLength\<close> inside the \<open>if\<close>, where the source has it.
\<close>

function formatRange :: "host \<Rightarrow> fmt \<Rightarrow> character list \<Rightarrow> nat \<Rightarrow> nat \<Rightarrow> character list" where
  "formatRange h f cs c stop =
     (if c < stop \<and> c < length cs then
        (case formatCharacter h f (cs ! c) of
           (ch, ok) \<Rightarrow>
             if ok then formatRange h f (cs[c := ch]) (Suc c) stop
             else cs[c := ch])
      else cs)"
  by pat_completeness auto
termination
  by (relation "measure (\<lambda>(h, f, cs, c, stop). stop - c)") auto

declare formatRange.simps [simp del]

fun formatRuns :: "host \<Rightarrow> character list \<Rightarrow> nat \<Rightarrow> run list \<Rightarrow> character list" where
  "formatRuns h cs charIndex [] = cs"
| "formatRuns h cs charIndex (r # rs) =
     (case formatting r of
        Some f \<Rightarrow>
          if truthy (run_text r) then
            (let runLength = length (orEmpty (run_text r))
             in formatRuns h (formatRange h f cs charIndex (charIndex + runLength))
                  (charIndex + runLength) rs)
          else formatRuns h cs charIndex rs
      | None \<Rightarrow> formatRuns h cs charIndex rs)"

record flow_state =
  doc :: document
  currentPageIndex :: nat
  pagesCreated :: nat
  paragraphsPlaced :: nat
  currentTextFrame :: nat
  linkedFrames :: "nat list"

definition placeParagraph ::
  "host \<Rightarrow> (string \<rightharpoonup> string) \<Rightarrow> flow_state \<Rightarrow> para \<Rightarrow> string \<Rightarrow> host_error + flow_state" where
  \<comment> \<open>lines 139 to 188\<close>
  "placeParagraph h sm s blk t =
     (let f = currentTextFrame s;
          startIndex = length (storyOf (doc s) f)
      in case set_contents h (doc s) f t of
           Inl e \<Rightarrow> Inl e
         | Inr d1 \<Rightarrow>
             let d2 = (if truthy (style blk) then
                         (case getOrCreateStyle h sm d1 (orEmpty (style blk)) of
                            (d', st) \<Rightarrow>
                              (case set_lastPara_style d' f st of
                                 None \<Rightarrow> d'
                               | Some d'' \<Rightarrow> d''))
                       else d1);
                 d3 = (case runs blk of
                         None \<Rightarrow> d2
                       | Some rs \<Rightarrow>
                           if length rs > 0
                           then setStory d2 f (formatRuns h (storyOf d2 f) startIndex rs)
                           else d2)
             in Inr (s\<lparr>doc := d3, paragraphsPlaced := Suc (paragraphsPlaced s)\<rparr>))"

definition checkOverflow :: "host \<Rightarrow> bool \<Rightarrow> flow_state \<Rightarrow> host_error + flow_state" where
  \<comment> \<open>lines 190 to 197\<close>
  "checkOverflow h af s =
     (if af \<and> overflows h (doc s) (currentTextFrame s) then
        (case getOrCreateTextFrame h (doc s) (pagesCreated s) (Suc (currentPageIndex s)) of
           Inl e \<Rightarrow> Inl e
         | Inr (d1, created, newFrame) \<Rightarrow>
             Inr (s\<lparr>doc := set_nextTextFrame d1 (currentTextFrame s) newFrame,
                    currentPageIndex := Suc (currentPageIndex s),
                    pagesCreated := created,
                    linkedFrames := linkedFrames s @ [newFrame],
                    currentTextFrame := newFrame\<rparr>))
      else Inr s)"

definition itemRuns :: "cell_item \<Rightarrow> run list option" where
  \<comment> \<open>\<open>para.runs\<close>\<close>
  "itemRuns item = (case item of ParaItem p \<Rightarrow> runs p | TextItem t \<Rightarrow> None)"

definition cellContent :: "cell \<Rightarrow> string" where
  "cellContent c =
     foldl (\<lambda>acc item. case itemRuns item of None \<Rightarrow> acc | Some rs \<Rightarrow> appendRuns acc rs) [] c"

fun join :: "string \<Rightarrow> string list \<Rightarrow> string" where
  \<comment> \<open>\<open>Array.prototype.join\<close>\<close>
  "join sep [] = []"
| "join sep [x] = x"
| "join sep (x # y # ys) = x @ sep @ join sep (y # ys)"

definition tableText :: "row list \<Rightarrow> string" where
  \<comment> \<open>lines 201 to 216\<close>
  "tableText rws =
     foldl (\<lambda>acc rw.
        acc @ join [TAB] (foldl (\<lambda>cellTexts c. cellTexts @ [cellContent c]) [] rw) @ [CR])
       [] rws"

fun processBlock ::
  "host \<Rightarrow> (string \<rightharpoonup> string) \<Rightarrow> bool \<Rightarrow> flow_state \<Rightarrow> block \<Rightarrow> host_error + flow_state" where
  \<comment> \<open>the body of the loop over the content blocks, lines 118 to 223\<close>
  "processBlock h sm af s (Paragraph blk) =
     (case paragraphText blk of
        None \<Rightarrow> Inr s
      | Some t \<Rightarrow>
          (case placeParagraph h sm s blk t of
             Inl e \<Rightarrow> Inl e
           | Inr s1 \<Rightarrow> checkOverflow h af s1))"
| "processBlock h sm af s (Table rws) =
     (let t = tableText (case rws of None \<Rightarrow> [] | Some rs \<Rightarrow> rs)
      in if t \<noteq> [] then
           (case set_contents h (doc s) (currentTextFrame s) t of
              Inl e \<Rightarrow> Inl e
            | Inr d1 \<Rightarrow> Inr (s\<lparr>doc := d1, paragraphsPlaced := Suc (paragraphsPlaced s)\<rparr>))
         else Inr s)"
| "processBlock h sm af s (OtherBlock ty) = Inr s"

fun processBlocks ::
  "host \<Rightarrow> (string \<rightharpoonup> string) \<Rightarrow> bool \<Rightarrow> flow_state \<Rightarrow> block list \<Rightarrow> host_error + flow_state" where
  "processBlocks h sm af s [] = Inr s"
| "processBlocks h sm af s (b # bs) =
     (case processBlock h sm af s b of
        Inl e \<Rightarrow> Inl e
      | Inr s' \<Rightarrow> processBlocks h sm af s' bs)"

record summary =
  r_pagesCreated :: nat
  r_paragraphsPlaced :: nat
  r_framesCreated :: nat
  r_startPage :: nat
  r_endPage :: nat

definition layoutWordContent :: "host \<Rightarrow> document \<Rightarrow> options \<Rightarrow> host_error + summary \<times> document" where
  \<comment> \<open>lines 30 to 44, 113 to 117 and 226 to 232\<close>
  "layoutWordContent h d opts =
     (let blocks = (case content opts of None \<Rightarrow> [] | Some c \<Rightarrow> c);
          sm = (case styleMapping opts of None \<Rightarrow> Map.empty | Some m \<Rightarrow> m);
          af = (autoFlow opts \<noteq> Some False);
          sp = (case startPage opts of None \<Rightarrow> 0 | Some n \<Rightarrow> n)
      in case getOrCreateTextFrame h d 0 sp of
           Inl e \<Rightarrow> Inl e
         | Inr (d1, created, fr) \<Rightarrow>
             (case processBlocks h sm af
                     \<lparr>doc = d1, currentPageIndex = sp, pagesCreated = created,
                      paragraphsPlaced = 0, currentTextFrame = fr, linkedFrames = [fr]\<rparr>
                     blocks of
                Inl e \<Rightarrow> Inl e
              | Inr s \<Rightarrow>
                  Inr (\<lparr>r_pagesCreated = pagesCreated s,
                        r_paragraphsPlaced = paragraphsPlaced s,
                        r_framesCreated = length (linkedFrames s),
                        r_startPage = sp,
                        r_endPage = currentPageIndex s\<rparr>,
                       doc s)))"

section \<open>Notions of the specification\<close>

definition pageWidth :: "page \<Rightarrow> real" where
  "pageWidth pg = (case bounds pg of (y1, x1, y2, x2) \<Rightarrow> x2 - x1)"

definition pageHeight :: "page \<Rightarrow> real" where
  "pageHeight pg = (case bounds pg of (y1, x1, y2, x2) \<Rightarrow> y2 - y1)"

definition frameX :: "textFrame \<Rightarrow> real" where
  "frameX fr = (case geometricBounds fr of (y1, x1, y2, x2) \<Rightarrow> x1)"

definition frameY :: "textFrame \<Rightarrow> real" where
  "frameY fr = (case geometricBounds fr of (y1, x1, y2, x2) \<Rightarrow> y1)"

definition frameWidth :: "textFrame \<Rightarrow> real" where
  "frameWidth fr = (case geometricBounds fr of (y1, x1, y2, x2) \<Rightarrow> x2 - x1)"

definition frameHeight :: "textFrame \<Rightarrow> real" where
  "frameHeight fr = (case geometricBounds fr of (y1, x1, y2, x2) \<Rightarrow> y2 - y1)"

definition storyText :: "document \<Rightarrow> nat \<Rightarrow> string" where
  \<comment> \<open>the text a container holds\<close>
  "storyText d f = map code (storyOf d f)"

text \<open>
  Flattening a table in the words of the specification: a cell is the concatenation of its
  paragraphs' run texts, the cells of a row are joined by a tab, and every row ends with a
  paragraph terminator.
\<close>

definition itemText :: "cell_item \<Rightarrow> string" where
  "itemText item =
     (case itemRuns item of
        None \<Rightarrow> []
      | Some rs \<Rightarrow> concat (map (\<lambda>r. orEmpty (run_text r)) rs))"

definition cellText :: "cell \<Rightarrow> string" where
  "cellText c = concat (map itemText c)"

definition flattenTable :: "row list \<Rightarrow> string" where
  "flattenTable rws = concat (map (\<lambda>rw. join [TAB] (map cellText rw) @ [CR]) rws)"

text \<open>
  The current page index minus the starting page index is the number of containers in the
  chain minus one.
\<close>

definition chainInvariant :: "nat \<Rightarrow> flow_state \<Rightarrow> bool" where
  "chainInvariant sp s =
     (int (currentPageIndex s) - int sp = int (length (linkedFrames s)) - 1)"

definition runsOf :: "para \<Rightarrow> run list" where
  "runsOf blk = (case runs blk of None \<Rightarrow> [] | Some rs \<Rightarrow> rs)"

text \<open>The concatenation of a paragraph block's run texts.\<close>

definition paraRunsText :: "para \<Rightarrow> string" where
  "paraRunsText blk = concat (map (\<lambda>r. orEmpty (run_text r)) (runsOf blk))"

section \<open>Sample hosts and documents\<close>

definition plainCharacter :: character where
  "plainCharacter =
     \<lparr>code = CHR ''x'', fontStyle = ''Regular'', underlineAttr = False,
      appliedParagraphStyle = ''[Basic Paragraph]''\<rparr>"

definition letterPage :: page where
  "letterPage =
     \<lparr>bounds = (0, 0, 792, 612),
      marginPreferences =
        \<lparr>top_margin = 36, bottom_margin = 48, left_margin = 54, right_margin = 72\<rparr>,
      textFrames = []\<rparr>"

definition blankDocument :: document where
  "blankDocument =
     \<lparr>pages = [letterPage], frames = [], paragraphStyles = [''[Basic Paragraph]'']\<rparr>"

definition plainHost :: host where
  \<comment> \<open>nothing fails, nothing overflows; a style name that is not a string is refused\<close>
  "plainHost =
     \<lparr>overflows = (\<lambda>d f. False),
      newPage = (\<lambda>d. letterPage),
      insertionAttrs = (\<lambda>cs. plainCharacter),
      pagesAddFails = (\<lambda>d. False),
      textFramesAddFails = (\<lambda>d p. False),
      setContentsFails = (\<lambda>d f t. False),
      styleAddFails = (\<lambda>d n. False),
      fontStyleFails = (\<lambda>c n. False),
      memberAsName = (\<lambda>m. None)\<rparr>"

definition tightHost :: host where
  \<comment> \<open>a container overflows once its story is longer than three characters\<close>
  "tightHost = plainHost\<lparr>overflows := (\<lambda>d f. length (parentStory (frames d ! f)) > 3)\<rparr>"

definition textPara :: "string \<Rightarrow> para" where
  "textPara t = \<lparr>runs = Some [\<lparr>run_text = Some t, formatting = None\<rparr>], style = None\<rparr>"

definition startedDocument :: document where
  "startedDocument =
     \<lparr>pages = [letterPage\<lparr>textFrames := [0]\<rparr>],
      frames = [\<lparr>geometricBounds = (36, 54, 744, 540), parentStory = [], nextTextFrame = None\<rparr>],
      paragraphStyles = [''[Basic Paragraph]'']\<rparr>"

definition startedState :: flow_state where
  "startedState =
     \<lparr>doc = startedDocument, currentPageIndex = 0, pagesCreated = 0, paragraphsPlaced = 0,
      currentTextFrame = 0, linkedFrames = [0]\<rparr>"

definition helloParagraph :: para where
  "helloParagraph =
     \<lparr>runs = Some [\<lparr>run_text = Some ''Hello'', formatting = None\<rparr>], style = Some ''Normal''\<rparr>"

definition helloOptions :: options where
  "helloOptions =
     \<lparr>content = Some [Paragraph helloParagraph],
      styleMapping = Some [''Normal'' \<mapsto> ''Body Text''],
      autoFlow = Some True, startPage = Some 0\<rparr>"

definition placedText :: "host_error + flow_state \<Rightarrow> string option" where
  \<comment> \<open>the text of the current container after a step\<close>
  "placedText r =
     (case r of Inl e \<Rightarrow> None | Inr s \<Rightarrow> Some (storyText (doc s) (currentTextFrame s)))"

definition spacerParagraph :: para where
  "spacerParagraph = \<lparr>runs = None, style = Some ''Spacer''\<rparr>"

definition emptyParagraph :: para where
  "emptyParagraph = \<lparr>runs = Some [\<lparr>run_text = Some [], formatting = None\<rparr>], style = None\<rparr>"

definition plainRun :: "string \<Rightarrow> run" where
  "plainRun t = \<lparr>run_text = Some t, formatting = None\<rparr>"

definition boldRun :: "string \<Rightarrow> run" where
  "boldRun t =
     \<lparr>run_text = Some t, formatting = Some \<lparr>bold = True, italic = False, underline = False\<rparr>\<rparr>"

definition mixedOptions :: options where
  "mixedOptions =
     \<lparr>content = Some [Paragraph \<lparr>runs = Some [plainRun ''123456789''], style = None\<rparr>,
                      Paragraph \<lparr>runs = Some [plainRun ''AB'', boldRun ''CD''], style = None\<rparr>],
      styleMapping = None, autoFlow = None, startPage = None\<rparr>"

section \<open>The container allocator\<close>

lemma ensurePage_Inr:
  "ensurePage h d created pageIndex = Inr (d', created') \<Longrightarrow>
     pageIndex < length (pages d') \<and> frames d' = frames d \<and> paragraphStyles d' = paragraphStyles d
     \<and> created \<le> created' \<and> length (pages d) \<le> length (pages d')
     \<and> length (pages d') + created = length (pages d) + created'"
proof (induction h d created pageIndex rule: ensurePage.induct)
  case (1 h d created pageIndex)
  show ?case
  proof (cases "length (pages d) \<le> pageIndex")
    case True
    with "1.prems" obtain d1 where a: "pages_add h d = Inr d1"
      and r: "ensurePage h d1 (Suc created) pageIndex = Inr (d', created')"
      by (auto simp: ensurePage.simps [of h d] split: sum.splits)
    from "1.IH" [OF True a r] a show ?thesis
      by (auto simp: pages_add_def split: if_splits)
  next
    case False
    with "1.prems" show ?thesis by (simp add: ensurePage.simps [of h d])
  qed
qed

lemma ensurePage_present:
  "pageIndex < length (pages d) \<Longrightarrow> ensurePage h d created pageIndex = Inr (d, created)"
  by (simp add: ensurePage.simps [of h d])

lemma getOrCreateTextFrame_Inr:
  assumes "getOrCreateTextFrame h d created pageIndex = Inr (d', created', fr)"
  shows "\<exists>d1. ensurePage h d created pageIndex = Inr (d1, created') \<and>
           fr = length (frames d) \<and>
           frames d' = frames d @
             [\<lparr>geometricBounds =
                  (cb_y (getPageContentBounds d1 pageIndex), cb_x (getPageContentBounds d1 pageIndex),
                   cb_y (getPageContentBounds d1 pageIndex) + cb_height (getPageContentBounds d1 pageIndex),
                   cb_x (getPageContentBounds d1 pageIndex) + cb_width (getPageContentBounds d1 pageIndex)),
                parentStory = [], nextTextFrame = None\<rparr>] \<and>
           pages d' = (pages d1)[pageIndex := (pages d1 ! pageIndex)
                         \<lparr>textFrames := textFrames (pages d1 ! pageIndex) @ [fr]\<rparr>] \<and>
           paragraphStyles d' = paragraphStyles d \<and> pageIndex < length (pages d1)"
  using assms
  by (auto simp: getOrCreateTextFrame_def textFrames_add_def Let_def
      split: sum.splits prod.splits if_splits dest!: ensurePage_Inr)

lemma getPageContentBounds_eq:
  "getPageContentBounds d pageIndex =
     \<lparr>cb_x = left_margin (marginPreferences (pages d ! pageIndex)),
      cb_y = top_margin (marginPreferences (pages d ! pageIndex)),
      cb_width = pageWidth (pages d ! pageIndex)
                 - left_margin (marginPreferences (pages d ! pageIndex))
                 - right_margin (marginPreferences (pages d ! pageIndex)),
      cb_height = pageHeight (pages d ! pageIndex)
                 - top_margin (marginPreferences (pages d ! pageIndex))
                 - bottom_margin (marginPreferences (pages d ! pageIndex))\<rparr>"
  by (simp add: getPageContentBounds_def pageWidth_def pageHeight_def Let_def split: prod.splits)

text \<open>
  Claim C8. The content bounds of a page are computed from that page's own margins and
  dimensions: x is the left margin, y the top margin, the width is the page width minus the
  left and right margins, the height is the page height minus the top and bottom margins;
  and the container created on the page spans exactly that rectangle.
\<close>

theorem container_spans_content_bounds:
  assumes "getOrCreateTextFrame h d created pageIndex = Inr (d', created', fr)"
  shows "pageIndex < length (pages d') \<and> fr < length (frames d') \<and>
         fr \<in> set (textFrames (pages d' ! pageIndex)) \<and>
         getPageContentBounds d' pageIndex =
           \<lparr>cb_x = left_margin (marginPreferences (pages d' ! pageIndex)),
            cb_y = top_margin (marginPreferences (pages d' ! pageIndex)),
            cb_width = pageWidth (pages d' ! pageIndex)
                       - left_margin (marginPreferences (pages d' ! pageIndex))
                       - right_margin (marginPreferences (pages d' ! pageIndex)),
            cb_height = pageHeight (pages d' ! pageIndex)
                       - top_margin (marginPreferences (pages d' ! pageIndex))
                       - bottom_margin (marginPreferences (pages d' ! pageIndex))\<rparr> \<and>
         frameX (frames d' ! fr) = cb_x (getPageContentBounds d' pageIndex) \<and>
         frameY (frames d' ! fr) = cb_y (getPageContentBounds d' pageIndex) \<and>
         frameWidth (frames d' ! fr) = cb_width (getPageContentBounds d' pageIndex) \<and>
         frameHeight (frames d' ! fr) = cb_height (getPageContentBounds d' pageIndex)"
proof -
  from getOrCreateTextFrame_Inr [OF assms] obtain d1 where
    fr: "fr = length (frames d)" and
    fs: "frames d' = frames d @
             [\<lparr>geometricBounds =
                  (cb_y (getPageContentBounds d1 pageIndex), cb_x (getPageContentBounds d1 pageIndex),
                   cb_y (getPageContentBounds d1 pageIndex) + cb_height (getPageContentBounds d1 pageIndex),
                   cb_x (getPageContentBounds d1 pageIndex) + cb_width (getPageContentBounds d1 pageIndex)),
                parentStory = [], nextTextFrame = None\<rparr>]" and
    ps: "pages d' = (pages d1)[pageIndex := (pages d1 ! pageIndex)
                         \<lparr>textFrames := textFrames (pages d1 ! pageIndex) @ [fr]\<rparr>]" and
    lt: "pageIndex < length (pages d1)"
    by blast
  have same: "getPageContentBounds d' pageIndex = getPageContentBounds d1 pageIndex"
    using lt by (simp add: getPageContentBounds_def ps Let_def)
  have mem: "fr \<in> set (textFrames (pages d' ! pageIndex))"
    using lt by (simp add: ps)
  have ix: "pageIndex < length (pages d')" "fr < length (frames d')"
    using lt by (simp_all add: ps fs fr)
  have geo: "geometricBounds (frames d' ! fr) =
       (cb_y (getPageContentBounds d' pageIndex), cb_x (getPageContentBounds d' pageIndex),
        cb_y (getPageContentBounds d' pageIndex) + cb_height (getPageContentBounds d' pageIndex),
        cb_x (getPageContentBounds d' pageIndex) + cb_width (getPageContentBounds d' pageIndex))"
    by (simp add: same fs fr)
  show ?thesis
    using mem ix
    by (simp add: frameX_def frameY_def frameWidth_def frameHeight_def geo)
       (rule getPageContentBounds_eq)
qed

theorem container_spans_content_bounds_witness:
  "\<exists>d' created' fr.
     getOrCreateTextFrame plainHost blankDocument 0 0 = Inr (d', created', fr) \<and>
     frameX (frames d' ! fr) = 54 \<and> frameY (frames d' ! fr) = 36 \<and>
     frameWidth (frames d' ! fr) = 486 \<and> frameHeight (frames d' ! fr) = 708"
proof -
  obtain d' created' fr where
    r: "getOrCreateTextFrame plainHost blankDocument 0 0 = Inr (d', created', fr)" and
    pg: "pages d' ! 0 = letterPage\<lparr>textFrames := [0]\<rparr>"
    by (simp add: getOrCreateTextFrame_def ensurePage.simps plainHost_def blankDocument_def
        textFrames_add_def Let_def letterPage_def)
  from container_spans_content_bounds [OF r] have
    "frameX (frames d' ! fr) = cb_x (getPageContentBounds d' 0)"
    "frameY (frames d' ! fr) = cb_y (getPageContentBounds d' 0)"
    "frameWidth (frames d' ! fr) = cb_width (getPageContentBounds d' 0)"
    "frameHeight (frames d' ! fr) = cb_height (getPageContentBounds d' 0)"
    "getPageContentBounds d' 0 =
           \<lparr>cb_x = left_margin (marginPreferences (pages d' ! 0)),
            cb_y = top_margin (marginPreferences (pages d' ! 0)),
            cb_width = pageWidth (pages d' ! 0)
                       - left_margin (marginPreferences (pages d' ! 0))
                       - right_margin (marginPreferences (pages d' ! 0)),
            cb_height = pageHeight (pages d' ! 0)
                       - top_margin (marginPreferences (pages d' ! 0))
                       - bottom_margin (marginPreferences (pages d' ! 0))\<rparr>"
    by simp_all
  then show ?thesis
    using r by (simp add: pg letterPage_def pageWidth_def pageHeight_def)
qed

subsection \<open>Style resolution\<close>

lemma getOrCreateStyle_cases:
  "getOrCreateStyle h sm d w =
     (case hostName h (indesignStyleName sm w) of
        None \<Rightarrow> (d, ''[Basic Paragraph]'')
      | Some n \<Rightarrow>
          if n \<in> set (paragraphStyles d) then (d, n)
          else if styleAddFails h d n then (d, ''[Basic Paragraph]'')
          else (d\<lparr>paragraphStyles := paragraphStyles d @ [n]\<rparr>, n))"
  by (simp add: getOrCreateStyle_def itemByName_def isValid_def paragraphStyles_add_def Let_def
      split: option.splits)

lemma placeParagraph_fails_iff:
  "(placeParagraph h sm s blk t = Inl e) =
     (setContentsFails h (doc s) (currentTextFrame s) t \<and> e = InsertError)"
  by (auto simp: placeParagraph_def set_contents_def Let_def split: sum.splits)

text \<open>
  Claim C6 says that a source style name absent from the style map resolves to the source
  name itself, so that a style of that name is found or created. The source reads
  \<open>styleMapping[wordStyleName]\<close> on a plain object, and for a name such as \<open>constructor\<close>
  the read finds the member inherited from \<open>Object.prototype\<close>, which is truthy.
  Evaluated with an empty style map: \<open>indesignStyleName\<close> for \<open>constructor\<close> is the
  inherited member, not the source name; on a host that refuses a style name that is not a
  string both \<open>try\<close> blocks throw and \<open>[Basic Paragraph]\<close> is returned, with no style
  \<open>constructor\<close> looked up or created; the name \<open>Quote\<close>, which nothing inherits,
  resolves to itself and its style is created.
\<close>

theorem inherited_member_replaces_source_name:
  "indesignStyleName Map.empty ''constructor'' = Inherited ''constructor'' \<and>
   getOrCreateStyle plainHost Map.empty blankDocument ''constructor'' =
     (blankDocument, ''[Basic Paragraph]'') \<and>
   indesignStyleName Map.empty ''Quote'' = Str ''Quote'' \<and>
   getOrCreateStyle plainHost Map.empty blankDocument ''Quote'' =
     (blankDocument\<lparr>paragraphStyles := [''[Basic Paragraph]'', ''Quote'']\<rparr>, ''Quote'')"
  by (simp add: getOrCreateStyle_cases indesignStyleName_def objectPrototypeKeys_def
      hostName_def plainHost_def blankDocument_def)

text \<open>
  Claim C7. Style resolution is idempotent: resolving the same source name a second time,
  against the same map and the document the first resolution left, returns the same style
  and changes nothing; the first resolution adds at most one style, the one it returns.
\<close>

theorem style_resolution_idempotent:
  "snd (getOrCreateStyle h sm (fst (getOrCreateStyle h sm d w)) w) = snd (getOrCreateStyle h sm d w) \<and>
   fst (getOrCreateStyle h sm (fst (getOrCreateStyle h sm d w)) w) = fst (getOrCreateStyle h sm d w) \<and>
   (paragraphStyles (fst (getOrCreateStyle h sm d w)) = paragraphStyles d \<or>
    hostName h (indesignStyleName sm w) = Some (snd (getOrCreateStyle h sm d w)) \<and>
    paragraphStyles (fst (getOrCreateStyle h sm d w)) =
      paragraphStyles d @ [snd (getOrCreateStyle h sm d w)])"
  by (simp add: getOrCreateStyle_cases split: option.splits)

theorem style_resolution_idempotent_witness:
  "snd (getOrCreateStyle plainHost Map.empty
          (fst (getOrCreateStyle plainHost Map.empty blankDocument ''Quote'')) ''Quote'') = ''Quote'' \<and>
   paragraphStyles (fst (getOrCreateStyle plainHost Map.empty
          (fst (getOrCreateStyle plainHost Map.empty blankDocument ''Quote'')) ''Quote'')) =
     [''[Basic Paragraph]'', ''Quote'']"
  using style_resolution_idempotent [of plainHost Map.empty blankDocument "''Quote''"]
  by (simp add: getOrCreateStyle_cases indesignStyleName_def objectPrototypeKeys_def
      hostName_def plainHost_def blankDocument_def)

section \<open>The flow engine\<close>

lemma placeParagraph_Inr:
  assumes "placeParagraph h sm s blk t = Inr s1"
  shows "currentPageIndex s1 = currentPageIndex s" "linkedFrames s1 = linkedFrames s"
    "currentTextFrame s1 = currentTextFrame s" "pagesCreated s1 = pagesCreated s"
    "paragraphsPlaced s1 = Suc (paragraphsPlaced s)"
  using assms
  by (auto simp: placeParagraph_def Let_def split: sum.splits)

lemma checkOverflow_chainInvariant:
  "chainInvariant sp s \<Longrightarrow> checkOverflow h af s = Inr s' \<Longrightarrow> chainInvariant sp s'"
  by (auto simp: checkOverflow_def chainInvariant_def split: sum.splits if_splits)

lemma processBlock_chainInvariant:
  "chainInvariant sp s \<Longrightarrow> processBlock h sm af s b = Inr s' \<Longrightarrow> chainInvariant sp s'"
proof (cases b)
  case (Paragraph blk)
  assume inv: "chainInvariant sp s" and step: "processBlock h sm af s b = Inr s'"
  show ?thesis
  proof (cases "paragraphText blk")
    case None
    with step Paragraph inv show ?thesis by simp
  next
    case (Some t)
    with step Paragraph obtain s1 where
      p: "placeParagraph h sm s blk t = Inr s1" and c: "checkOverflow h af s1 = Inr s'"
      by (auto split: sum.splits)
    from placeParagraph_Inr [OF p] inv have "chainInvariant sp s1"
      by (simp add: chainInvariant_def)
    then show ?thesis using c by (rule checkOverflow_chainInvariant)
  qed
next
  case (Table rws)
  assume "chainInvariant sp s" "processBlock h sm af s b = Inr s'"
  with Table show ?thesis
    by (auto simp: chainInvariant_def Let_def split: sum.splits if_splits)
next
  case (OtherBlock ty)
  assume "chainInvariant sp s" "processBlock h sm af s b = Inr s'"
  with OtherBlock show ?thesis by simp
qed

lemma processBlocks_chainInvariant:
  "chainInvariant sp s \<Longrightarrow> processBlocks h sm af s bs = Inr s' \<Longrightarrow> chainInvariant sp s'"
proof (induction bs arbitrary: s)
  case Nil
  then show ?case by simp
next
  case (Cons b bs)
  from Cons.prems(2) obtain s1 where
    a: "processBlock h sm af s b = Inr s1" and r: "processBlocks h sm af s1 bs = Inr s'"
    by (auto split: sum.splits)
  from Cons.IH [OF processBlock_chainInvariant [OF Cons.prems(1) a] r] show ?case .
qed

text \<open>
  Claim C9. Every step of the flow engine keeps the invariant that the current page index
  minus the starting page index equals the number of containers in the chain minus one;
  hence the summary of every completed flow operation satisfies
  \<open>endPage = startPage + framesCreated - 1\<close>.
\<close>

theorem chain_length_invariant:
  "(chainInvariant sp s \<and> processBlock h sm af s b = Inr s' \<longrightarrow> chainInvariant sp s') \<and>
   (layoutWordContent h d opts = Inr (r, d') \<longrightarrow>
      int (r_endPage r) = int (r_startPage r) + int (r_framesCreated r) - 1)"
proof (intro conjI impI)
  assume "chainInvariant sp s \<and> processBlock h sm af s b = Inr s'"
  then show "chainInvariant sp s'" by (blast intro: processBlock_chainInvariant)
next
  assume run: "layoutWordContent h d opts = Inr (r, d')"
  define sp0 where "sp0 = (case startPage opts of None \<Rightarrow> 0 | Some n \<Rightarrow> n)"
  from run obtain d1 created fr s1 where
    loop: "processBlocks h (case styleMapping opts of None \<Rightarrow> Map.empty | Some m \<Rightarrow> m)
             (autoFlow opts \<noteq> Some False)
             \<lparr>doc = d1, currentPageIndex = sp0, pagesCreated = created,
              paragraphsPlaced = 0, currentTextFrame = fr, linkedFrames = [fr]\<rparr>
             (case content opts of None \<Rightarrow> [] | Some c \<Rightarrow> c) = Inr s1" and
    res: "r = \<lparr>r_pagesCreated = pagesCreated s1, r_paragraphsPlaced = paragraphsPlaced s1,
              r_framesCreated = length (linkedFrames s1), r_startPage = sp0,
              r_endPage = currentPageIndex s1\<rparr>"
    by (auto simp: layoutWordContent_def Let_def sp0_def split: sum.splits prod.splits)
  have "chainInvariant sp0
          \<lparr>doc = d1, currentPageIndex = sp0, pagesCreated = created,
           paragraphsPlaced = 0, currentTextFrame = fr, linkedFrames = [fr]\<rparr>"
    by (simp add: chainInvariant_def)
  from processBlocks_chainInvariant [OF this loop] show
    "int (r_endPage r) = int (r_startPage r) + int (r_framesCreated r) - 1"
    by (simp add: chainInvariant_def res)
qed


lemmas host_defs = plainHost_def tightHost_def plainCharacter_def letterPage_def
  blankDocument_def startedDocument_def startedState_def helloParagraph_def helloOptions_def
  textPara_def

lemmas engine_defs = layoutWordContent_def getOrCreateTextFrame_def ensurePage.simps
  getPageContentBounds_def textFrames_add_def pages_add_def paragraphText_def appendRuns_def
  orEmpty_def truthy_def placeParagraph_def set_contents_def storyOf_def setStory_def
  insertedText_def getOrCreateStyle_def indesignStyleName_def objectPrototypeKeys_def
  hostName_def itemByName_def isValid_def
  paragraphStyles_add_def set_lastPara_style_def styleLastParagraph_def
  lastParagraphStart_def CR_def TAB_def checkOverflow_def set_nextTextFrame_def
  formatRange.simps formatCharacter_def set_fontStyle_def tableText_def cellContent_def
  itemRuns_def Let_def

theorem chain_length_invariant_witness:
  "chainInvariant 0 startedState \<and>
   (\<exists>s'. processBlock tightHost Map.empty True startedState (Paragraph helloParagraph) = Inr s' \<and>
         chainInvariant 0 s' \<and> currentPageIndex s' = 1) \<and>
   (\<exists>r d'. layoutWordContent tightHost blankDocument helloOptions = Inr (r, d') \<and>
           r_startPage r = 0 \<and> r_framesCreated r = 2 \<and> r_endPage r = 1)"
proof -
  have i: "chainInvariant 0 startedState"
    by (simp add: chainInvariant_def startedState_def)
  obtain s' where
    st: "processBlock tightHost Map.empty True startedState (Paragraph helloParagraph) = Inr s'"
    and pi: "currentPageIndex s' = 1"
    by (simp add: engine_defs host_defs)
  obtain r d' where
    run: "layoutWordContent tightHost blankDocument helloOptions = Inr (r, d')" and
    sp: "r_startPage r = 0" and fc: "r_framesCreated r = 2"
    by (simp add: engine_defs host_defs)
  from chain_length_invariant [of 0 startedState tightHost Map.empty True
      "Paragraph helloParagraph" s' blankDocument helloOptions r d'] i st run sp fc
  have "chainInvariant 0 s'" "r_endPage r = 1" by simp_all
  with i st pi run sp fc show ?thesis by blast
qed

subsection \<open>Tables\<close>

lemma foldl_append_concat:
  "foldl (\<lambda>acc x. acc @ g x) a xs = a @ concat (map g xs)"
  by (induction xs arbitrary: a) simp_all

lemma foldl_snoc_map:
  "foldl (\<lambda>ys x. ys @ [g x]) a xs = a @ map g xs"
  by (induction xs arbitrary: a) simp_all

lemma appendRuns_concat:
  "appendRuns acc rs = acc @ concat (map (\<lambda>r. orEmpty (run_text r)) rs)"
  unfolding appendRuns_def by (rule foldl_append_concat)

lemma cellContent_cellText: "cellContent c = cellText c"
proof -
  have "foldl (\<lambda>acc item. case itemRuns item of None \<Rightarrow> acc | Some rs \<Rightarrow> appendRuns acc rs) a c
          = a @ concat (map itemText c)" for a
    by (induction c arbitrary: a)
       (simp_all add: itemText_def appendRuns_concat split: option.splits)
  from this [of "[]"] show ?thesis by (simp add: cellContent_def cellText_def)
qed

lemma tableText_flattenTable: "tableText rws = flattenTable rws"
proof -
  have "(\<lambda>acc rw. acc @ join [TAB] (foldl (\<lambda>cellTexts c. cellTexts @ [cellContent c]) [] rw) @ [CR])
        = (\<lambda>acc rw. acc @ (join [TAB] (map cellText rw) @ [CR]))"
    by (simp add: foldl_snoc_map cellContent_cellText)
  then show ?thesis
    by (simp add: tableText_def flattenTable_def foldl_append_concat)
qed

lemma tableText_empty_iff: "(tableText rws = []) = (rws = [])"
  by (cases rws) (simp_all add: tableText_flattenTable flattenTable_def)



text \<open>
  Claim C3. A table block is flattened to text by concatenating each cell's paragraph and
  run texts, joining the cells of a row with a tab character and joining rows with a
  paragraph terminator, which follows each row; the result is appended to the current
  container exactly as a bare text append: the story of the current container grows by the
  inserted text and the counter \<open>paragraphsPlaced\<close> by one, and nothing else in the state
  changes, so no per-run character formatting is applied, no paragraph style is applied and
  no overflow check or page advance is performed. A table of one row whose two cells hold
  the paragraphs \<open>A\<close> and \<open>B\<close> appends exactly \<open>A\tB\r\<close>.
\<close>

theorem table_flattened_bare_append:
  "tableText rws = flattenTable rws \<and>
   processBlock h sm af s (Table (Some rws)) =
     (if rws = [] then Inr s
      else if setContentsFails h (doc s) (currentTextFrame s) (flattenTable rws)
      then Inl InsertError
      else Inr (s\<lparr>doc := setStory (doc s) (currentTextFrame s)
                          (storyOf (doc s) (currentTextFrame s) @
                           insertedText h (storyOf (doc s) (currentTextFrame s))
                             (flattenTable rws)),
                  paragraphsPlaced := Suc (paragraphsPlaced s)\<rparr>)) \<and>
   processBlock h sm af s (Table None) = Inr s \<and>
   flattenTable [[[ParaItem (textPara ''A'')], [ParaItem (textPara ''B'')]]] =
     ''A'' @ [TAB] @ ''B'' @ [CR]"
proof -
  have "processBlock h sm af s (Table None) = Inr s"
    by (simp add: tableText_def)
  moreover have "flattenTable [[[ParaItem (textPara ''A'')], [ParaItem (textPara ''B'')]]] =
     ''A'' @ [TAB] @ ''B'' @ [CR]"
    by (simp add: flattenTable_def cellText_def itemText_def itemRuns_def textPara_def orEmpty_def)
  moreover have "processBlock h sm af s (Table (Some rws)) =
     (if rws = [] then Inr s
      else if setContentsFails h (doc s) (currentTextFrame s) (flattenTable rws)
      then Inl InsertError
      else Inr (s\<lparr>doc := setStory (doc s) (currentTextFrame s)
                          (storyOf (doc s) (currentTextFrame s) @
                           insertedText h (storyOf (doc s) (currentTextFrame s))
                             (flattenTable rws)),
                  paragraphsPlaced := Suc (paragraphsPlaced s)\<rparr>))"
    using tableText_empty_iff [of rws]
    by (simp add: set_contents_def Let_def) (simp add: tableText_flattenTable)
  ultimately show ?thesis by (simp add: tableText_flattenTable)
qed

theorem table_flattened_bare_append_witness:
  "placedText (processBlock plainHost Map.empty True startedState
      (Table (Some [[[ParaItem (textPara ''A'')], [ParaItem (textPara ''B'')]]]))) =
     Some (''A'' @ [TAB] @ ''B'' @ [CR])"
proof -
  note t = table_flattened_bare_append
         [of "[[[ParaItem (textPara ''A'')], [ParaItem (textPara ''B'')]]]"
           plainHost Map.empty True startedState]
  note step = t [THEN conjunct2, THEN conjunct1]
  note flat = t [THEN conjunct2, THEN conjunct2, THEN conjunct2]
  show ?thesis
    unfolding step
    by (simp add: flat placedText_def storyText_def storyOf_def setStory_def insertedText_def
        plainHost_def startedState_def startedDocument_def)
qed

subsection \<open>Character formatting keeps the text\<close>

lemma formatCharacter_keeps:
  "code (fst (formatCharacter h f ch)) = code ch"
  "appliedParagraphStyle (fst (formatCharacter h f ch)) = appliedParagraphStyle ch"
  by (auto simp: formatCharacter_def set_fontStyle_def split: option.splits if_splits)

lemma map_update_same:
  "g y = g (xs ! i) \<Longrightarrow> map g (xs[i := y]) = map g xs"
proof (induction xs arbitrary: i)
  case Nil
  then show ?case by simp
next
  case (Cons x xs)
  then show ?case by (cases i) simp_all
qed

lemma formatRange_keeps:
  "map code (formatRange h f cs c stop) = map code cs \<and>
   map appliedParagraphStyle (formatRange h f cs c stop) = map appliedParagraphStyle cs"
proof (induction h f cs c stop rule: formatRange.induct)
  case (1 h f cs c stop)
  show ?case
  proof (cases "c < stop \<and> c < length cs")
    case False
    then show ?thesis by (auto simp: formatRange.simps [of h f cs c stop])
  next
    case True
    obtain ch ok where fc: "formatCharacter h f (cs ! c) = (ch, ok)"
      by (cases "formatCharacter h f (cs ! c)")
    from formatCharacter_keeps [of h f "cs ! c"] fc have
      k: "code ch = code (cs ! c)" "appliedParagraphStyle ch = appliedParagraphStyle (cs ! c)"
      by simp_all
    show ?thesis
    proof (cases ok)
      case True
      from "1.IH" [OF \<open>c < stop \<and> c < length cs\<close> fc [symmetric] True] k
      show ?thesis
        using \<open>c < stop \<and> c < length cs\<close> fc True
        by (simp add: formatRange.simps [of h f cs] map_update_same)
    next
      case False
      then show ?thesis
        using \<open>c < stop \<and> c < length cs\<close> fc k
        by (simp add: formatRange.simps [of h f cs] map_update_same)
    qed
  qed
qed

lemma formatRuns_keeps:
  "map code (formatRuns h cs i rs) = map code cs \<and>
   map appliedParagraphStyle (formatRuns h cs i rs) = map appliedParagraphStyle cs"
  by (induction rs arbitrary: cs i) (auto simp: formatRange_keeps Let_def split: option.splits)

lemma formatRuns_no_text:
  "concat (map (\<lambda>r. orEmpty (run_text r)) rs) = [] \<Longrightarrow> formatRuns h cs i rs = cs"
  by (induction rs arbitrary: cs i)
     (auto simp: truthy_def orEmpty_def split: option.splits)

subsection \<open>Styling the last paragraph\<close>

lemma lastParagraphStart_less: "cs \<noteq> [] \<Longrightarrow> lastParagraphStart cs < length cs"
  by (cases cs) (simp_all add: lastParagraphStart_def)

lemma styleLastParagraph_keeps: "map code (styleLastParagraph st cs) = map code cs"
proof -
  have "map code (styleLastParagraph st cs) =
        map code (take (lastParagraphStart cs) cs) @ map code (drop (lastParagraphStart cs) cs)"
    by (simp add: styleLastParagraph_def comp_def)
  also have "\<dots> = map code (take (lastParagraphStart cs) cs @ drop (lastParagraphStart cs) cs)"
    by (simp only: map_append)
  also have "\<dots> = map code cs"
    by (simp only: append_take_drop_id)
  finally show ?thesis .
qed

lemma styleLastParagraph_last:
  assumes "cs \<noteq> []"
  shows "appliedParagraphStyle (last (styleLastParagraph st cs)) = st"
proof -
  from lastParagraphStart_less [OF assms] have "drop (lastParagraphStart cs) cs \<noteq> []"
    by simp
  then show ?thesis
    by (simp add: styleLastParagraph_def last_map)
qed


lemma getOrCreateTextFrame_page:
  assumes "getOrCreateTextFrame h d created pageIndex = Inr (d', created', fr)"
  shows "pageIndex < length (pages d')" "fr \<in> set (textFrames (pages d' ! pageIndex))"
  using getOrCreateTextFrame_Inr [OF assms] by auto

subsection \<open>What placing a paragraph does to the document\<close>

lemma setStory_other [simp]:
  "pages (setStory d f cs) = pages d"
  "paragraphStyles (setStory d f cs) = paragraphStyles d"
  "length (frames (setStory d f cs)) = length (frames d)"
  "g \<noteq> f \<Longrightarrow> frames (setStory d f cs) ! g = frames d ! g"
  by (simp_all add: setStory_def)

lemma setStory_this [simp]:
  assumes "f < length (frames d)"
  shows "storyOf (setStory d f cs) f = cs"
    "nextTextFrame (frames (setStory d f cs) ! f) = nextTextFrame (frames d ! f)"
    "geometricBounds (frames (setStory d f cs) ! f) = geometricBounds (frames d ! f)"
  using assms by (simp_all add: setStory_def storyOf_def)

lemma getOrCreateStyle_keeps [simp]:
  "frames (fst (getOrCreateStyle h sm d w)) = frames d"
  "pages (fst (getOrCreateStyle h sm d w)) = pages d"
  "storyOf (fst (getOrCreateStyle h sm d w)) f = storyOf d f"
  by (simp_all add: getOrCreateStyle_cases storyOf_def split: option.splits)

lemma getOrCreateStyle_valid:
  "''[Basic Paragraph]'' \<in> set (paragraphStyles d) \<Longrightarrow>
   isValid (fst (getOrCreateStyle h sm d w)) (snd (getOrCreateStyle h sm d w))"
  by (simp add: getOrCreateStyle_cases isValid_def split: option.splits)

text \<open>The three stages of \<open>placeParagraph\<close> after the insertion.\<close>

lemma placeParagraph_stages:
  assumes "placeParagraph h sm s blk t = Inr s1"
  shows "\<exists>d1 d2 d3.
     set_contents h (doc s) (currentTextFrame s) t = Inr d1 \<and>
     d2 = (if truthy (style blk) then
             (case set_lastPara_style (fst (getOrCreateStyle h sm d1 (orEmpty (style blk))))
                     (currentTextFrame s) (snd (getOrCreateStyle h sm d1 (orEmpty (style blk)))) of
                None \<Rightarrow> fst (getOrCreateStyle h sm d1 (orEmpty (style blk)))
              | Some d'' \<Rightarrow> d'')
           else d1) \<and>
     d3 = (if runsOf blk \<noteq> []
           then setStory d2 (currentTextFrame s)
                  (formatRuns h (storyOf d2 (currentTextFrame s))
                     (length (storyOf (doc s) (currentTextFrame s))) (runsOf blk))
           else d2) \<and>
     s1 = s\<lparr>doc := d3, paragraphsPlaced := Suc (paragraphsPlaced s)\<rparr>"
proof -
  from assms obtain d1 where a: "set_contents h (doc s) (currentTextFrame s) t = Inr d1"
    by (auto simp: placeParagraph_def Let_def split: sum.splits)
  with assms show ?thesis
    by (cases "truthy (style blk)"; cases "runs blk")
       (auto simp: placeParagraph_def Let_def runsOf_def case_prod_beta split: option.splits)
qed

lemma set_contents_Inr:
  assumes "set_contents h d f t = Inr d1" "f < length (frames d)"
  shows "storyOf d1 f = storyOf d f @ insertedText h (storyOf d f) t"
    "storyText d1 f = storyText d f @ t"
    "length (frames d1) = length (frames d)" "pages d1 = pages d"
    "paragraphStyles d1 = paragraphStyles d"
    "\<And>g. g \<noteq> f \<Longrightarrow> frames d1 ! g = frames d ! g"
    "nextTextFrame (frames d1 ! f) = nextTextFrame (frames d ! f)"
    "geometricBounds (frames d1 ! f) = geometricBounds (frames d ! f)"
  using assms
  by (auto simp: set_contents_def storyText_def insertedText_def comp_def split: if_splits)

lemma styled_keeps:
  fixes h sm w
  assumes "f < length (frames d1)"
  defines "d2 \<equiv> (case set_lastPara_style (fst (getOrCreateStyle h sm d1 w)) f
                     (snd (getOrCreateStyle h sm d1 w)) of
                None \<Rightarrow> fst (getOrCreateStyle h sm d1 w)
              | Some d'' \<Rightarrow> d'')"
  shows "storyText d2 f = storyText d1 f"
    "length (frames d2) = length (frames d1)" "pages d2 = pages d1"
    "\<And>g. g \<noteq> f \<Longrightarrow> frames d2 ! g = frames d1 ! g"
    "nextTextFrame (frames d2 ! f) = nextTextFrame (frames d1 ! f)"
    "geometricBounds (frames d2 ! f) = geometricBounds (frames d1 ! f)"
  using assms(1) unfolding d2_def
  by (auto simp: set_lastPara_style_def storyText_def styleLastParagraph_keeps
        split: option.splits if_splits)

lemma styled_last:
  fixes h sm w
  assumes "f < length (frames d1)" "storyOf d1 f \<noteq> []"
    "''[Basic Paragraph]'' \<in> set (paragraphStyles d1)"
  defines "d2 \<equiv> (case set_lastPara_style (fst (getOrCreateStyle h sm d1 w)) f
                     (snd (getOrCreateStyle h sm d1 w)) of
                None \<Rightarrow> fst (getOrCreateStyle h sm d1 w)
              | Some d'' \<Rightarrow> d'')"
  shows "appliedParagraphStyle (last (storyOf d2 f)) = snd (getOrCreateStyle h sm d1 w)"
  using assms(1-3) getOrCreateStyle_valid [OF assms(3), of h sm w] unfolding d2_def
  by (simp add: set_lastPara_style_def styleLastParagraph_last)

lemma formatted_keeps:
  fixes h i rs
  assumes "f < length (frames d2)"
  defines "d3 \<equiv> setStory d2 f (formatRuns h (storyOf d2 f) i rs)"
  shows "storyText d3 f = storyText d2 f"
    "map appliedParagraphStyle (storyOf d3 f) = map appliedParagraphStyle (storyOf d2 f)"
    "length (frames d3) = length (frames d2)" "pages d3 = pages d2"
    "\<And>g. g \<noteq> f \<Longrightarrow> frames d3 ! g = frames d2 ! g"
    "nextTextFrame (frames d3 ! f) = nextTextFrame (frames d2 ! f)"
    "geometricBounds (frames d3 ! f) = geometricBounds (frames d2 ! f)"
    "paragraphStyles d3 = paragraphStyles d2"
  using assms(1) unfolding d3_def
  by (simp_all add: storyText_def formatRuns_keeps)


lemma placeParagraph_doc:
  assumes p: "placeParagraph h sm s blk t = Inr s1"
    and f: "currentTextFrame s < length (frames (doc s))"
  shows "storyText (doc s1) (currentTextFrame s) = storyText (doc s) (currentTextFrame s) @ t"
    "length (frames (doc s1)) = length (frames (doc s))"
    "pages (doc s1) = pages (doc s)"
    "\<And>g. g \<noteq> currentTextFrame s \<Longrightarrow> frames (doc s1) ! g = frames (doc s) ! g"
    "nextTextFrame (frames (doc s1) ! currentTextFrame s) =
       nextTextFrame (frames (doc s) ! currentTextFrame s)"
    "geometricBounds (frames (doc s1) ! currentTextFrame s) =
       geometricBounds (frames (doc s) ! currentTextFrame s)"
proof -
  let ?f = "currentTextFrame s"
  from placeParagraph_stages [OF p] obtain d1 d2 d3 where
    a: "set_contents h (doc s) ?f t = Inr d1" and
    b: "d2 = (if truthy (style blk) then
             (case set_lastPara_style (fst (getOrCreateStyle h sm d1 (orEmpty (style blk))))
                     ?f (snd (getOrCreateStyle h sm d1 (orEmpty (style blk)))) of
                None \<Rightarrow> fst (getOrCreateStyle h sm d1 (orEmpty (style blk)))
              | Some d'' \<Rightarrow> d'')
           else d1)" and
    c: "d3 = (if runsOf blk \<noteq> []
           then setStory d2 ?f
                  (formatRuns h (storyOf d2 ?f) (length (storyOf (doc s) ?f)) (runsOf blk))
           else d2)" and
    r: "s1 = s\<lparr>doc := d3, paragraphsPlaced := Suc (paragraphsPlaced s)\<rparr>"
    by blast
  note A = set_contents_Inr [OF a f]
  have f1: "?f < length (frames d1)" using A(3) f by simp
  have B: "storyText d2 ?f = storyText d1 ?f" "length (frames d2) = length (frames d1)"
    "pages d2 = pages d1" "\<And>g. g \<noteq> ?f \<Longrightarrow> frames d2 ! g = frames d1 ! g"
    "nextTextFrame (frames d2 ! ?f) = nextTextFrame (frames d1 ! ?f)"
    "geometricBounds (frames d2 ! ?f) = geometricBounds (frames d1 ! ?f)"
    using styled_keeps [OF f1, where h = h and sm = sm and w = "orEmpty (style blk)"] by (simp_all add: b)
  have f2: "?f < length (frames d2)" using B(2) f1 by simp
  have C: "storyText d3 ?f = storyText d2 ?f" "length (frames d3) = length (frames d2)"
    "pages d3 = pages d2" "\<And>g. g \<noteq> ?f \<Longrightarrow> frames d3 ! g = frames d2 ! g"
    "nextTextFrame (frames d3 ! ?f) = nextTextFrame (frames d2 ! ?f)"
    "geometricBounds (frames d3 ! ?f) = geometricBounds (frames d2 ! ?f)"
    using formatted_keeps [OF f2, where h = h and i = "length (storyOf (doc s) ?f)"
        and rs = "runsOf blk"]
    by (simp_all add: c)
  show "storyText (doc s1) ?f = storyText (doc s) ?f @ t"
    by (simp add: r C(1) B(1) A(2))
  show "length (frames (doc s1)) = length (frames (doc s))"
    by (simp add: r C(2) B(2) A(3))
  show "pages (doc s1) = pages (doc s)"
    by (simp add: r C(3) B(3) A(4))
  show "frames (doc s1) ! g = frames (doc s) ! g" if "g \<noteq> ?f" for g
    using that by (simp add: r C(4) B(4) A(6))
  show "nextTextFrame (frames (doc s1) ! ?f) = nextTextFrame (frames (doc s) ! ?f)"
    by (simp add: r C(5) B(5) A(7))
  show "geometricBounds (frames (doc s1) ! ?f) = geometricBounds (frames (doc s) ! ?f)"
    by (simp add: r C(6) B(6) A(8))
qed

lemma set_nextTextFrame_simps [simp]:
  "pages (set_nextTextFrame d a b) = pages d"
  "paragraphStyles (set_nextTextFrame d a b) = paragraphStyles d"
  "length (frames (set_nextTextFrame d a b)) = length (frames d)"
  "a < length (frames d) \<Longrightarrow> nextTextFrame (frames (set_nextTextFrame d a b) ! a) = Some b"
  "g \<noteq> a \<Longrightarrow> frames (set_nextTextFrame d a b) ! g = frames d ! g"
  by (simp_all add: set_nextTextFrame_def)

lemma set_nextTextFrame_story [simp]:
  "storyOf (set_nextTextFrame d a b) g = storyOf d g"
proof (cases "g = a \<and> a < length (frames d)")
  case True
  then show ?thesis by (simp add: set_nextTextFrame_def storyOf_def)
next
  case False
  then show ?thesis
    by (cases "g = a") (simp_all add: set_nextTextFrame_def storyOf_def list_update_beyond)
qed

lemma checkOverflow_same:
  "\<not> (af \<and> overflows h (doc s) (currentTextFrame s)) \<Longrightarrow> checkOverflow h af s = Inr s"
  by (auto simp: checkOverflow_def)

lemma checkOverflow_new_frame:
  assumes c: "checkOverflow h af s = Inr s'"
    and o: "af" "overflows h (doc s) (currentTextFrame s)"
    and f: "currentTextFrame s < length (frames (doc s))"
  shows "currentPageIndex s' = Suc (currentPageIndex s)"
    "currentTextFrame s' = length (frames (doc s))"
    "length (frames (doc s')) = Suc (length (frames (doc s)))"
    "linkedFrames s' = linkedFrames s @ [currentTextFrame s']"
    "nextTextFrame (frames (doc s') ! currentTextFrame s) = Some (currentTextFrame s')"
    "currentPageIndex s' < length (pages (doc s'))"
    "currentTextFrame s' \<in> set (textFrames (pages (doc s') ! currentPageIndex s'))"
    "storyOf (doc s') (currentTextFrame s') = []"
    "\<And>g. g < length (frames (doc s)) \<Longrightarrow> storyOf (doc s') g = storyOf (doc s) g"
    "paragraphsPlaced s' = paragraphsPlaced s"
proof -
  from c o obtain d1 created fr where
    g: "getOrCreateTextFrame h (doc s) (pagesCreated s) (Suc (currentPageIndex s)) =
          Inr (d1, created, fr)" and
    r: "s' = s\<lparr>doc := set_nextTextFrame d1 (currentTextFrame s) fr,
                currentPageIndex := Suc (currentPageIndex s), pagesCreated := created,
                linkedFrames := linkedFrames s @ [fr], currentTextFrame := fr\<rparr>"
    by (auto simp: checkOverflow_def split: sum.splits)
  from getOrCreateTextFrame_Inr [OF g] obtain d0 where
    fr: "fr = length (frames (doc s))" and
    fs: "frames d1 = frames (doc s) @
             [\<lparr>geometricBounds =
                  (cb_y (getPageContentBounds d0 (Suc (currentPageIndex s))),
                   cb_x (getPageContentBounds d0 (Suc (currentPageIndex s))),
                   cb_y (getPageContentBounds d0 (Suc (currentPageIndex s))) +
                     cb_height (getPageContentBounds d0 (Suc (currentPageIndex s))),
                   cb_x (getPageContentBounds d0 (Suc (currentPageIndex s))) +
                     cb_width (getPageContentBounds d0 (Suc (currentPageIndex s)))),
                parentStory = [], nextTextFrame = None\<rparr>]"
    by blast
  from getOrCreateTextFrame_page [OF g] have
    pg: "Suc (currentPageIndex s) < length (pages d1)"
        "fr \<in> set (textFrames (pages d1 ! Suc (currentPageIndex s)))"
    by simp_all
  show "currentPageIndex s' = Suc (currentPageIndex s)" by (simp add: r)
  show "currentTextFrame s' = length (frames (doc s))" by (simp add: r fr)
  show "length (frames (doc s')) = Suc (length (frames (doc s)))" by (simp add: r fs)
  show "linkedFrames s' = linkedFrames s @ [currentTextFrame s']" by (simp add: r)
  show "nextTextFrame (frames (doc s') ! currentTextFrame s) = Some (currentTextFrame s')"
    using f by (simp add: r fs)
  show "currentPageIndex s' < length (pages (doc s'))" using pg by (simp add: r)
  show "currentTextFrame s' \<in> set (textFrames (pages (doc s') ! currentPageIndex s'))"
    using pg by (simp add: r)
  show "storyOf (doc s') (currentTextFrame s') = []"
    by (simp add: r) (simp add: storyOf_def fs fr)
  show "storyOf (doc s') g = storyOf (doc s) g" if "g < length (frames (doc s))" for g
    using that by (simp add: r) (simp add: storyOf_def fs nth_append)
  show "paragraphsPlaced s' = paragraphsPlaced s" by (simp add: r)
qed


lemma checkOverflow_story:
  assumes c: "checkOverflow h af s = Inr s'" and g: "g < length (frames (doc s))"
  shows "storyOf (doc s') g = storyOf (doc s) g"
    "paragraphsPlaced s' = paragraphsPlaced s"
    "length (frames (doc s)) \<le> length (frames (doc s'))"
proof -
  have "storyOf (doc s') g = storyOf (doc s) g \<and> paragraphsPlaced s' = paragraphsPlaced s \<and>
        length (frames (doc s)) \<le> length (frames (doc s'))"
  proof (cases "af \<and> overflows h (doc s) (currentTextFrame s)")
    case False
    with c checkOverflow_same [OF False] show ?thesis by simp
  next
    case True
    with c obtain d1 created fr where
      gt: "getOrCreateTextFrame h (doc s) (pagesCreated s) (Suc (currentPageIndex s)) =
            Inr (d1, created, fr)" and
      r: "doc s' = set_nextTextFrame d1 (currentTextFrame s) fr"
         "paragraphsPlaced s' = paragraphsPlaced s"
      by (auto simp: checkOverflow_def split: sum.splits)
    from getOrCreateTextFrame_Inr [OF gt] obtain x where "frames d1 = frames (doc s) @ [x]"
      by blast
    with g have "storyOf d1 g = storyOf (doc s) g" "length (frames (doc s)) \<le> length (frames d1)"
      by (simp_all add: storyOf_def nth_append)
    with r show ?thesis by simp
  qed
  then show "storyOf (doc s') g = storyOf (doc s) g"
    "paragraphsPlaced s' = paragraphsPlaced s"
    "length (frames (doc s)) \<le> length (frames (doc s'))" by simp_all
qed

lemma paragraphText_eq:
  "paragraphText blk =
     (if paraRunsText blk \<noteq> [] then Some (paraRunsText blk @ [CR])
      else if truthy (style blk) then Some [CR] else None)"
  by (auto simp: paragraphText_def paraRunsText_def runsOf_def appendRuns_concat Let_def
      split: option.splits)

text \<open>
  Claim C4. A paragraph block whose runs concatenate to the empty string: without a style
  name it is skipped and the state is unchanged (no text, no counter, no container, no
  page); with a style name a single paragraph terminator is appended to the current
  container, the style returned by the style resolver is applied to it, and
  \<open>paragraphsPlaced\<close> grows by one. A style name is present when the \<open>style\<close> property is a
  non-empty string; the built-in style \<open>[Basic Paragraph]\<close> is assumed to exist in the
  document, as it does in every InDesign document.
\<close>

theorem empty_paragraph:
  assumes e: "paraRunsText blk = []"
  shows "(\<not> truthy (style blk) \<longrightarrow>
            paragraphText blk = None \<and> processBlock h sm af s (Paragraph blk) = Inr s) \<and>
         (truthy (style blk) \<longrightarrow> paragraphText blk = Some [CR]) \<and>
         (truthy (style blk) \<and> processBlock h sm af s (Paragraph blk) = Inr s' \<and>
          currentTextFrame s < length (frames (doc s)) \<and>
          ''[Basic Paragraph]'' \<in> set (paragraphStyles (doc s)) \<longrightarrow>
            storyText (doc s') (currentTextFrame s) =
              storyText (doc s) (currentTextFrame s) @ [CR] \<and>
            (\<exists>d1. set_contents h (doc s) (currentTextFrame s) [CR] = Inr d1 \<and>
                  appliedParagraphStyle (last (storyOf (doc s') (currentTextFrame s))) =
                    snd (getOrCreateStyle h sm d1 (orEmpty (style blk)))) \<and>
            paragraphsPlaced s' = Suc (paragraphsPlaced s))"
proof (intro conjI impI)
  assume "\<not> truthy (style blk)"
  with e show "paragraphText blk = None" by (simp add: paragraphText_eq)
  then show "processBlock h sm af s (Paragraph blk) = Inr s" by simp
next
  assume "truthy (style blk)"
  with e show "paragraphText blk = Some [CR]" by (simp add: paragraphText_eq)
next
  let ?f = "currentTextFrame s"
  assume a: "truthy (style blk) \<and> processBlock h sm af s (Paragraph blk) = Inr s' \<and>
          ?f < length (frames (doc s)) \<and> ''[Basic Paragraph]'' \<in> set (paragraphStyles (doc s))"
  then have st: "truthy (style blk)" and f: "?f < length (frames (doc s))"
    and bp: "''[Basic Paragraph]'' \<in> set (paragraphStyles (doc s))" by simp_all
  from st e have pt: "paragraphText blk = Some [CR]" by (simp add: paragraphText_eq)
  with a obtain s1 where
    p: "placeParagraph h sm s blk [CR] = Inr s1" and c: "checkOverflow h af s1 = Inr s'"
    by (auto split: sum.splits)
  from placeParagraph_stages [OF p] st obtain d1 d2 d3 where
    i: "set_contents h (doc s) ?f [CR] = Inr d1" and
    b: "d2 = (case set_lastPara_style (fst (getOrCreateStyle h sm d1 (orEmpty (style blk))))
                     ?f (snd (getOrCreateStyle h sm d1 (orEmpty (style blk)))) of
                None \<Rightarrow> fst (getOrCreateStyle h sm d1 (orEmpty (style blk)))
              | Some d'' \<Rightarrow> d'')" and
    d3: "d3 = (if runsOf blk \<noteq> []
           then setStory d2 ?f
                  (formatRuns h (storyOf d2 ?f) (length (storyOf (doc s) ?f)) (runsOf blk))
           else d2)" and
    r: "s1 = s\<lparr>doc := d3, paragraphsPlaced := Suc (paragraphsPlaced s)\<rparr>"
    by auto
  note I = set_contents_Inr [OF i f]
  have f1: "?f < length (frames d1)" using I(3) f by simp
  have ne: "storyOf d1 ?f \<noteq> []" by (simp add: I(1) insertedText_def)
  have bp1: "''[Basic Paragraph]'' \<in> set (paragraphStyles d1)" using bp by (simp add: I(5))
  have f2: "?f < length (frames d2)"
    using styled_keeps(2) [OF f1, where h = h and sm = sm and w = "orEmpty (style blk)"] f1
    by (simp add: b)
  have l2: "appliedParagraphStyle (last (storyOf d2 ?f)) =
              snd (getOrCreateStyle h sm d1 (orEmpty (style blk)))"
    using styled_last [OF f1 ne bp1, where h = h and sm = sm and w = "orEmpty (style blk)"]
    by (simp add: b)
  have "formatRuns h (storyOf d2 ?f) (length (storyOf (doc s) ?f)) (runsOf blk) = storyOf d2 ?f"
    using e by (simp add: formatRuns_no_text paraRunsText_def)
  then have s3: "storyOf d3 ?f = storyOf d2 ?f" using f2 by (simp add: d3)
  have f3: "?f < length (frames (doc s1))"
    using placeParagraph_doc(2) [OF p f] f by simp
  have s': "storyOf (doc s') ?f = storyOf d2 ?f"
    using checkOverflow_story(1) [OF c f3] s3 by (simp add: r)
  show "storyText (doc s') ?f = storyText (doc s) ?f @ [CR]"
    using checkOverflow_story(1) [OF c f3] placeParagraph_doc(1) [OF p f]
    by (simp add: storyText_def)
  show "\<exists>d1. set_contents h (doc s) ?f [CR] = Inr d1 \<and>
          appliedParagraphStyle (last (storyOf (doc s') ?f)) =
            snd (getOrCreateStyle h sm d1 (orEmpty (style blk)))"
    using i l2 s' by auto
  show "paragraphsPlaced s' = Suc (paragraphsPlaced s)"
    using checkOverflow_story(2) [OF c f3] by (simp add: r)
qed


theorem empty_paragraph_witness:
  "paraRunsText emptyParagraph = [] \<and> \<not> truthy (style emptyParagraph) \<and>
   processBlock plainHost Map.empty True startedState (Paragraph emptyParagraph) = Inr startedState \<and>
   paraRunsText spacerParagraph = [] \<and> truthy (style spacerParagraph) \<and>
   (\<exists>s'. processBlock plainHost Map.empty True startedState (Paragraph spacerParagraph) = Inr s' \<and>
      storyText (doc s') 0 = [CR] \<and>
      appliedParagraphStyle (last (storyOf (doc s') 0)) = ''Spacer'' \<and>
      paragraphsPlaced s' = 1)"
proof -
  have e1: "paraRunsText emptyParagraph = []" and n1: "\<not> truthy (style emptyParagraph)"
    by (simp_all add: paraRunsText_def runsOf_def emptyParagraph_def orEmpty_def truthy_def)
  have e2: "paraRunsText spacerParagraph = []" and t2: "truthy (style spacerParagraph)"
    by (simp_all add: paraRunsText_def runsOf_def spacerParagraph_def truthy_def)
  obtain s' where
    st: "processBlock plainHost Map.empty True startedState (Paragraph spacerParagraph) = Inr s'"
    by (simp add: engine_defs host_defs spacerParagraph_def)
  have f: "currentTextFrame startedState < length (frames (doc startedState))"
    and bp: "''[Basic Paragraph]'' \<in> set (paragraphStyles (doc startedState))"
    by (simp_all add: startedState_def startedDocument_def)
  from empty_paragraph [OF e1, of plainHost Map.empty True startedState] n1
  have a: "processBlock plainHost Map.empty True startedState (Paragraph emptyParagraph) =
             Inr startedState"
    by blast
  from empty_paragraph [OF e2, of plainHost Map.empty True startedState s'] t2 st f bp
  obtain d1 where
    b: "storyText (doc s') (currentTextFrame startedState) =
          storyText (doc startedState) (currentTextFrame startedState) @ [CR]"
       "set_contents plainHost (doc startedState) (currentTextFrame startedState) [CR] = Inr d1"
       "appliedParagraphStyle (last (storyOf (doc s') (currentTextFrame startedState))) =
          snd (getOrCreateStyle plainHost Map.empty d1 (orEmpty (style spacerParagraph)))"
       "paragraphsPlaced s' = Suc (paragraphsPlaced startedState)"
    by blast
  have c: "snd (getOrCreateStyle plainHost Map.empty d1 (orEmpty (style spacerParagraph))) =
             ''Spacer''"
    using b(2)
    by (auto simp: getOrCreateStyle_cases indesignStyleName_def objectPrototypeKeys_def
        hostName_def spacerParagraph_def orEmpty_def
        plainHost_def set_contents_def startedState_def startedDocument_def)
  from b c have
    "storyText (doc s') 0 = [CR]"
    "appliedParagraphStyle (last (storyOf (doc s') 0)) = ''Spacer''"
    "paragraphsPlaced s' = 1"
    by (simp_all add: startedState_def startedDocument_def storyText_def storyOf_def)
  with e1 n1 a e2 t2 st show ?thesis by blast
qed

subsection \<open>Overflow\<close>

lemma processBlock_frames:
  assumes st: "processBlock h sm af s b = Inr s'"
    and f: "currentTextFrame s < length (frames (doc s))"
  shows "currentTextFrame s' < length (frames (doc s'))"
    "length (frames (doc s)) \<le> length (frames (doc s'))"
    "currentPageIndex s \<le> currentPageIndex s'"
    "currentTextFrame s' = currentTextFrame s \<or> length (frames (doc s)) \<le> currentTextFrame s'"
    "\<And>g. g < length (frames (doc s)) \<Longrightarrow> g \<noteq> currentTextFrame s \<Longrightarrow>
        storyOf (doc s') g = storyOf (doc s) g"
proof -
  let ?P = "\<lambda>s'. currentTextFrame s' < length (frames (doc s')) \<and>
    length (frames (doc s)) \<le> length (frames (doc s')) \<and>
    currentPageIndex s \<le> currentPageIndex s' \<and>
    (currentTextFrame s' = currentTextFrame s \<or> length (frames (doc s)) \<le> currentTextFrame s') \<and>
    (\<forall>g. g < length (frames (doc s)) \<and> g \<noteq> currentTextFrame s \<longrightarrow>
        storyOf (doc s') g = storyOf (doc s) g)"
  have "?P s'"
  proof (cases b)
    case (OtherBlock ty)
    with st f show ?thesis by simp
  next
    case (Table rws)
    show ?thesis
    proof (cases "tableText (case rws of None \<Rightarrow> [] | Some rs \<Rightarrow> rs) = []")
      case True
      with st f Table show ?thesis by (simp add: Let_def)
    next
      case False
      with st Table obtain d1 where
        i: "set_contents h (doc s) (currentTextFrame s)
              (tableText (case rws of None \<Rightarrow> [] | Some rs \<Rightarrow> rs)) = Inr d1" and
        r: "s' = s\<lparr>doc := d1, paragraphsPlaced := Suc (paragraphsPlaced s)\<rparr>"
        by (auto simp: Let_def split: sum.splits)
      from set_contents_Inr(3,6) [OF i f] f show ?thesis
        by (simp add: r storyOf_def)
    qed
  next
    case (Paragraph blk)
    show ?thesis
    proof (cases "paragraphText blk")
      case None
      with st f Paragraph show ?thesis by simp
    next
      case (Some t)
      with st Paragraph obtain s1 where
        p: "placeParagraph h sm s blk t = Inr s1" and c: "checkOverflow h af s1 = Inr s'"
        by (auto split: sum.splits)
      note D = placeParagraph_doc [OF p f] and K = placeParagraph_Inr [OF p]
      have f1: "currentTextFrame s1 < length (frames (doc s1))" using f D(2) K(3) by simp
      have old: "storyOf (doc s1) g = storyOf (doc s) g"
        if "g \<noteq> currentTextFrame s" for g
        using D(4) [OF that] by (simp add: storyOf_def)
      show ?thesis
      proof (cases "af \<and> overflows h (doc s1) (currentTextFrame s1)")
        case False
        from c checkOverflow_same [OF False] have "s' = s1" by simp
        with f1 D(2) K old show ?thesis by simp
      next
        case True
        note A = checkOverflow_new_frame [OF c _ _ f1]
        from True A(1,2,3,9) D(2) K old show ?thesis by simp
      qed
    qed
  qed
  then show "currentTextFrame s' < length (frames (doc s'))"
    "length (frames (doc s)) \<le> length (frames (doc s'))"
    "currentPageIndex s \<le> currentPageIndex s'"
    "currentTextFrame s' = currentTextFrame s \<or> length (frames (doc s)) \<le> currentTextFrame s'"
    "\<And>g. g < length (frames (doc s)) \<Longrightarrow> g \<noteq> currentTextFrame s \<Longrightarrow>
        storyOf (doc s') g = storyOf (doc s) g"
    by simp_all
qed

lemma processBlocks_frames:
  assumes "processBlocks h sm af s bs = Inr s'"
    and "currentTextFrame s < length (frames (doc s))"
  shows "currentPageIndex s \<le> currentPageIndex s' \<and>
    (\<forall>g. g < length (frames (doc s)) \<and> g \<noteq> currentTextFrame s \<longrightarrow>
        storyOf (doc s') g = storyOf (doc s) g)"
  using assms
proof (induction bs arbitrary: s)
  case Nil
  then show ?case by simp
next
  case (Cons b bs)
  from Cons.prems(1) obtain s1 where
    a: "processBlock h sm af s b = Inr s1" and r: "processBlocks h sm af s1 bs = Inr s'"
    by (auto split: sum.splits)
  note F = processBlock_frames [OF a Cons.prems(2)]
  from Cons.IH [OF r F(1)] have
    ih: "currentPageIndex s1 \<le> currentPageIndex s'"
        "\<And>g. g < length (frames (doc s1)) \<Longrightarrow> g \<noteq> currentTextFrame s1 \<Longrightarrow>
            storyOf (doc s') g = storyOf (doc s1) g"
    by simp_all
  show ?case
  proof (intro conjI allI impI)
    show "currentPageIndex s \<le> currentPageIndex s'" using F(3) ih(1) by simp
  next
    fix g assume g: "g < length (frames (doc s)) \<and> g \<noteq> currentTextFrame s"
    with F(2,4) have "g < length (frames (doc s1))" "g \<noteq> currentTextFrame s1" by auto
    from ih(2) [OF this] F(5) g show "storyOf (doc s') g = storyOf (doc s) g" by simp
  qed
qed

text \<open>
  The current container always exists: it does after the initial allocation, and every
  block keeps it so. This is the well-formedness that the statements about a single step
  assume of their starting state.
\<close>

lemma initial_frame_exists:
  "getOrCreateTextFrame h d created pageIndex = Inr (d1, created1, fr) \<Longrightarrow>
   fr < length (frames d1)"
  by (auto dest!: getOrCreateTextFrame_Inr)

lemma processBlocks_current_frame:
  "processBlocks h sm af s bs = Inr s' \<Longrightarrow> currentTextFrame s < length (frames (doc s)) \<Longrightarrow>
   currentTextFrame s' < length (frames (doc s'))"
proof (induction bs arbitrary: s)
  case Nil
  then show ?case by simp
next
  case (Cons b bs)
  from Cons.prems(1) obtain s1 where
    a: "processBlock h sm af s b = Inr s1" and r: "processBlocks h sm af s1 bs = Inr s'"
    by (auto split: sum.splits)
  from Cons.IH [OF r processBlock_frames(1) [OF a Cons.prems(2)]] show ?case .
qed

text \<open>
  Claim C2. With auto-flow enabled, when the current container reports overflow after a
  paragraph block has been placed, the engine increments the page index by exactly one,
  allocates a new, empty container on that page, links the former container to it, appends
  it to the chain and makes it current; whatever blocks follow, the story of the overflowed
  container stays as it is, and the page index never decreases.
\<close>

theorem overflow_advance:
  assumes pt: "paragraphText blk = Some t"
    and placed: "placeParagraph h sm s blk t = Inr s1"
    and ovf: "overflows h (doc s1) (currentTextFrame s1)"
    and step: "processBlock h sm True s (Paragraph blk) = Inr s2"
    and rest: "processBlocks h sm True s2 bs = Inr s3"
    and f: "currentTextFrame s < length (frames (doc s))"
  shows "currentPageIndex s2 = Suc (currentPageIndex s) \<and>
    \<not> currentTextFrame s2 < length (frames (doc s)) \<and>
    currentTextFrame s2 < length (frames (doc s2)) \<and>
    currentPageIndex s2 < length (pages (doc s2)) \<and>
    currentTextFrame s2 \<in> set (textFrames (pages (doc s2) ! currentPageIndex s2)) \<and>
    storyOf (doc s2) (currentTextFrame s2) = [] \<and>
    nextTextFrame (frames (doc s2) ! currentTextFrame s) = Some (currentTextFrame s2) \<and>
    linkedFrames s2 = linkedFrames s @ [currentTextFrame s2] \<and>
    storyText (doc s2) (currentTextFrame s) = storyText (doc s) (currentTextFrame s) @ t \<and>
    storyOf (doc s3) (currentTextFrame s) = storyOf (doc s2) (currentTextFrame s) \<and>
    currentPageIndex s \<le> currentPageIndex s2 \<and> currentPageIndex s2 \<le> currentPageIndex s3"
proof -
  let ?f = "currentTextFrame s"
  from step pt placed have c: "checkOverflow h True s1 = Inr s2" by simp
  note D = placeParagraph_doc [OF placed f] and K = placeParagraph_Inr [OF placed]
  have f1: "currentTextFrame s1 < length (frames (doc s1))" using f D(2) K(3) by simp
  have ovf': "overflows h (doc s1) (currentTextFrame s1)" by (rule ovf)
  note A = checkOverflow_new_frame [OF c TrueI ovf' f1]
  have f2: "currentTextFrame s2 < length (frames (doc s2))" using A(2,3) by simp
  have old: "?f < length (frames (doc s2))" "?f \<noteq> currentTextFrame s2"
    using f A(2,3) D(2) by simp_all
  from processBlocks_frames [OF rest f2] old have
    R: "currentPageIndex s2 \<le> currentPageIndex s3"
       "storyOf (doc s3) ?f = storyOf (doc s2) ?f"
    by simp_all
  have appended: "storyText (doc s2) ?f = storyText (doc s) ?f @ t"
    using A(9) [of ?f] f D(1,2) by (simp add: storyText_def)
  show ?thesis
    using A(1-8) K(1-3) D(2) f2 R appended by simp
qed

theorem overflow_advance_witness:
  "\<exists>s1 s2 s3.
     paragraphText helloParagraph = Some (''Hello'' @ [CR]) \<and>
     placeParagraph tightHost Map.empty startedState helloParagraph (''Hello'' @ [CR]) = Inr s1 \<and>
     overflows tightHost (doc s1) (currentTextFrame s1) \<and>
     processBlock tightHost Map.empty True startedState (Paragraph helloParagraph) = Inr s2 \<and>
     processBlocks tightHost Map.empty True s2 [Paragraph helloParagraph] = Inr s3 \<and>
     currentPageIndex s2 = 1 \<and> currentTextFrame s2 = 1 \<and>
     nextTextFrame (frames (doc s2) ! 0) = Some 1 \<and> linkedFrames s2 = [0, 1] \<and>
     storyText (doc s3) 0 = ''Hello'' @ [CR] \<and> currentPageIndex s3 = 2"
proof -
  have pt: "paragraphText helloParagraph = Some (''Hello'' @ [CR])"
    by (simp add: engine_defs host_defs)
  have "\<exists>s1 s2 s3.
     placeParagraph tightHost Map.empty startedState helloParagraph (''Hello'' @ [CR]) = Inr s1 \<and>
     overflows tightHost (doc s1) (currentTextFrame s1) \<and>
     processBlock tightHost Map.empty True startedState (Paragraph helloParagraph) = Inr s2 \<and>
     currentTextFrame s2 = 1 \<and>
     processBlocks tightHost Map.empty True s2 [Paragraph helloParagraph] = Inr s3 \<and>
     currentPageIndex s3 = 2"
    by (simp add: engine_defs host_defs)
  then obtain s1 s2 s3 where
    p: "placeParagraph tightHost Map.empty startedState helloParagraph (''Hello'' @ [CR]) = Inr s1"
    and o: "overflows tightHost (doc s1) (currentTextFrame s1)"
    and st: "processBlock tightHost Map.empty True startedState (Paragraph helloParagraph) = Inr s2"
    and c2: "currentTextFrame s2 = 1"
    and re: "processBlocks tightHost Map.empty True s2 [Paragraph helloParagraph] = Inr s3"
    and p3: "currentPageIndex s3 = 2"
    by blast
  have f: "currentTextFrame startedState < length (frames (doc startedState))"
    by (simp add: startedState_def startedDocument_def)
  from overflow_advance [OF pt p o st re f] c2 have
    "currentPageIndex s2 = 1" "nextTextFrame (frames (doc s2) ! 0) = Some 1"
    "linkedFrames s2 = [0, 1]" "storyText (doc s3) 0 = ''Hello'' @ [CR]"
    by (simp_all add: startedState_def startedDocument_def storyText_def storyOf_def)
  with pt p o st re c2 p3 show ?thesis by blast
qed

subsection \<open>Run ranges\<close>

text \<open>
  Claim C1 says that the range formatted for run i starts at \<open>startIndex\<close> plus the lengths
  of all runs before it, whichever runs carry formatting. The source advances \<open>charIndex\<close>
  only inside \<open>if (run.text && run.formatting)\<close>. Evaluated on a paragraph with the runs
  \<open>AB\<close> (no formatting) and \<open>CD\<close> (bold), appended at story offset 10: the characters
  at offsets 10 and 11 (\<open>AB\<close>) become bold, those at 12 and 13 (\<open>CD\<close>) do not.
\<close>

theorem unformatted_run_shifts_ranges:
  "\<exists>r d'. layoutWordContent plainHost blankDocument mixedOptions = Inr (r, d') \<and>
     storyText d' 0 = ''123456789'' @ [CR] @ ''ABCD'' @ [CR] \<and>
     map fontStyle (drop 10 (storyOf d' 0)) =
       [''Bold'', ''Bold'', ''Regular'', ''Regular'', ''Regular'']"
  by (simp add: engine_defs host_defs mixedOptions_def plainRun_def boldRun_def storyText_def)


subsection \<open>End to end\<close>

lemma styled_story:
  fixes h sm w
  assumes "f < length (frames d1)" "storyOf d1 f \<noteq> []"
    "isValid (fst (getOrCreateStyle h sm d1 w)) (snd (getOrCreateStyle h sm d1 w))"
  defines "d2 \<equiv> (case set_lastPara_style (fst (getOrCreateStyle h sm d1 w)) f
                     (snd (getOrCreateStyle h sm d1 w)) of
                None \<Rightarrow> fst (getOrCreateStyle h sm d1 w)
              | Some d'' \<Rightarrow> d'')"
  shows "storyOf d2 f = styleLastParagraph (snd (getOrCreateStyle h sm d1 w)) (storyOf d1 f)"
  using assms(1-3) unfolding d2_def
  by (simp add: set_lastPara_style_def)

text \<open>
  Claim C5. End to end: for a document that has a page 0 without containers, on a host that
  does not fail and whose container holding \<open>Hello\r\<close> does not overflow, the flow of
  the single paragraph \<open>Hello\<close> with style \<open>Normal\<close>, mapped to \<open>Body Text\<close>, from start
  page 0 with auto-flow returns the summary \<open>{pagesCreated:0, paragraphsPlaced:1,
  framesCreated:1, startPage:0, endPage:0}\<close>, and page 0 holds exactly one container, whose
  text is \<open>Hello\r\<close> with paragraph style \<open>Body Text\<close> on all of it.
\<close>

theorem hello_end_to_end:
  assumes pg: "pages d \<noteq> []"
    and nofr: "textFrames (pages d ! 0) = []"
    and ok1: "\<not> textFramesAddFails h d 0"
    and ok2: "\<forall>d'. \<not> setContentsFails h d' (length (frames d)) (''Hello'' @ [CR])"
    and ok3: "''Body Text'' \<in> set (paragraphStyles d) \<or>
              (\<forall>d'. \<not> styleAddFails h d' ''Body Text'')"
    and fits: "\<forall>d'. storyText d' (length (frames d)) = ''Hello'' @ [CR] \<longrightarrow>
                 \<not> overflows h d' (length (frames d))"
  shows "\<exists>d'. layoutWordContent h d helloOptions =
           Inr (\<lparr>r_pagesCreated = 0, r_paragraphsPlaced = 1, r_framesCreated = 1,
                 r_startPage = 0, r_endPage = 0\<rparr>, d') \<and>
          textFrames (pages d' ! 0) = [length (frames d)] \<and>
          storyText d' (length (frames d)) = ''Hello'' @ [CR] \<and>
          map appliedParagraphStyle (storyOf d' (length (frames d))) =
            replicate 6 ''Body Text''"
proof -
  let ?f = "length (frames d)"
  let ?sm = "[''Normal'' \<mapsto> ''Body Text'']"
  let ?t = "''Hello'' @ [CR]"
  from pg have p0: "0 < length (pages d)" by simp
  obtain d0 gb where
    g: "getOrCreateTextFrame h d 0 0 = Inr (d0, 0, ?f)" and
    d0: "frames d0 = frames d @ [\<lparr>geometricBounds = gb,
                                  parentStory = [], nextTextFrame = None\<rparr>]"
        "pages d0 = (pages d)[0 := (pages d ! 0)\<lparr>textFrames := [?f]\<rparr>]"
        "paragraphStyles d0 = paragraphStyles d"
    using p0 ok1 nofr
    by (simp add: getOrCreateTextFrame_def ensurePage_present textFrames_add_def Let_def)
  define s0 where "s0 = \<lparr>doc = d0, currentPageIndex = 0, pagesCreated = 0,
      paragraphsPlaced = 0, currentTextFrame = ?f, linkedFrames = [?f]\<rparr>"
  have f0: "currentTextFrame s0 < length (frames (doc s0))"
    by (simp add: s0_def d0(1))
  have e0: "storyOf (doc s0) ?f = []"
    by (simp add: s0_def storyOf_def d0(1))
  have pt: "paragraphText helloParagraph = Some ?t"
    by (simp add: paragraphText_def helloParagraph_def appendRuns_def orEmpty_def)
  obtain s1 where p: "placeParagraph h ?sm s0 helloParagraph ?t = Inr s1"
  proof (cases "placeParagraph h ?sm s0 helloParagraph ?t")
    case (Inl e)
    with ok2 show ?thesis by (simp add: placeParagraph_fails_iff s0_def)
  next
    case (Inr s1)
    with that show ?thesis by blast
  qed
  note K = placeParagraph_Inr [OF p] and D = placeParagraph_doc [OF p f0]
  have tx: "storyText (doc s1) ?f = ?t"
    using D(1) e0 by (simp add: s0_def storyText_def)
  with fits have "\<not> overflows h (doc s1) (currentTextFrame s1)"
    using K(3) by (simp add: s0_def)
  then have c: "checkOverflow h True s1 = Inr s1" by (simp add: checkOverflow_same)
  have loop: "processBlocks h ?sm True s0 [Paragraph helloParagraph] = Inr s1"
    using pt p c by simp
  have run: "layoutWordContent h d helloOptions =
      Inr (\<lparr>r_pagesCreated = 0, r_paragraphsPlaced = 1, r_framesCreated = 1,
            r_startPage = 0, r_endPage = 0\<rparr>, doc s1)"
    using g loop K unfolding s0_def
    by (simp add: layoutWordContent_def helloOptions_def Let_def)
  have pgs: "textFrames (pages (doc s1) ! 0) = [?f]"
    using D(3) p0 by (simp add: s0_def d0(2))
  \<comment> \<open>the style applied\<close>
  have hp: "truthy (style helloParagraph)" "orEmpty (style helloParagraph) = ''Normal''"
    "runsOf helloParagraph = [\<lparr>run_text = Some ''Hello'', formatting = None\<rparr>]"
    by (simp_all add: helloParagraph_def truthy_def orEmpty_def runsOf_def)
  have cf: "currentTextFrame s0 = ?f" by (simp add: s0_def)
  from placeParagraph_stages [OF p] obtain d1 d2 d3 where
    i: "set_contents h (doc s0) (currentTextFrame s0) ?t = Inr d1" and
    b0: "d2 = (if truthy (style helloParagraph) then
             (case set_lastPara_style
                     (fst (getOrCreateStyle h ?sm d1 (orEmpty (style helloParagraph))))
                     (currentTextFrame s0)
                     (snd (getOrCreateStyle h ?sm d1 (orEmpty (style helloParagraph)))) of
                None \<Rightarrow> fst (getOrCreateStyle h ?sm d1 (orEmpty (style helloParagraph)))
              | Some d'' \<Rightarrow> d'')
           else d1)" and
    d30: "d3 = (if runsOf helloParagraph \<noteq> []
           then setStory d2 (currentTextFrame s0)
                  (formatRuns h (storyOf d2 (currentTextFrame s0))
                     (length (storyOf (doc s0) (currentTextFrame s0))) (runsOf helloParagraph))
           else d2)" and
    r: "s1 = s0\<lparr>doc := d3, paragraphsPlaced := Suc (paragraphsPlaced s0)\<rparr>"
    by blast
  have b: "d2 = (case set_lastPara_style (fst (getOrCreateStyle h ?sm d1 ''Normal''))
                     ?f (snd (getOrCreateStyle h ?sm d1 ''Normal'')) of
                None \<Rightarrow> fst (getOrCreateStyle h ?sm d1 ''Normal'')
              | Some d'' \<Rightarrow> d'')"
    using b0 by (simp only: hp cf if_True)
  have d3: "d3 = setStory d2 ?f (storyOf d2 ?f)"
    using d30 by (simp add: hp cf)
  note I = set_contents_Inr [OF i f0]
  have f1: "?f < length (frames d1)" using I(3) f0 by (simp add: cf)
  have st1: "storyOf d1 ?f = insertedText h [] ?t"
    using I(1) e0 by (simp add: cf)
  have res: "snd (getOrCreateStyle h ?sm d1 ''Normal'') = ''Body Text''"
    "isValid (fst (getOrCreateStyle h ?sm d1 ''Normal'')) ''Body Text''"
    using ok3 I(5) d0(3)
    by (auto simp: getOrCreateStyle_cases indesignStyleName_def hostName_def isValid_def s0_def)
  have st2: "storyOf d2 ?f = styleLastParagraph ''Body Text'' (insertedText h [] ?t)"
    using styled_story [OF f1, where h = h and sm = ?sm and w = "''Normal''"] res
    by (simp add: b st1 insertedText_def)
  have f2: "?f < length (frames d2)"
    using styled_keeps(2) [OF f1, where h = h and sm = ?sm and w = "''Normal''"] f1
    by (simp add: b)
  have st3: "storyOf (doc s1) ?f = styleLastParagraph ''Body Text'' (insertedText h [] ?t)"
    using f2 by (simp add: r d3 st2)
  have sty: "map appliedParagraphStyle (storyOf (doc s1) ?f) = replicate 6 ''Body Text''"
    by (simp add: st3 styleLastParagraph_def lastParagraphStart_def insertedText_def CR_def
        eval_nat_numeral)
  from run pgs tx sty show ?thesis by blast
qed


theorem hello_end_to_end_witness:
  "\<exists>d'. layoutWordContent plainHost blankDocument helloOptions =
           Inr (\<lparr>r_pagesCreated = 0, r_paragraphsPlaced = 1, r_framesCreated = 1,
                 r_startPage = 0, r_endPage = 0\<rparr>, d') \<and>
        textFrames (pages d' ! 0) = [0] \<and>
        storyText d' 0 = ''Hello'' @ [CR] \<and>
        map appliedParagraphStyle (storyOf d' 0) = replicate 6 ''Body Text''"
  using hello_end_to_end [of blankDocument plainHost]
  by (simp add: blankDocument_def plainHost_def letterPage_def)

end
